theory Spec2Isabelle
  imports Complex_Main
begin

section \<open>Text primitives of the Python runtime\<close>

text \<open>
  A Python \<open>str\<close> is a sequence of code points. The model covers the code points
  U+0000 to U+00FF, one \<open>char\<close> each; \<open>isspace\<close> and \<open>lower_char\<close> are
  \<open>str.isspace\<close> and \<open>str.lower\<close> on that range.
\<close>

definition isspace :: "char \<Rightarrow> bool" where
  "isspace c =
     (let n = (of_char c :: nat)
      in (9 \<le> n \<and> n \<le> 13) \<or> (28 \<le> n \<and> n \<le> 32) \<or> n = 133 \<or> n = 160)"

definition lower_char :: "char \<Rightarrow> char" where
  "lower_char c =
     (let n = (of_char c :: nat)
      in if (65 \<le> n \<and> n \<le> 90) \<or> (192 \<le> n \<and> n \<le> 222 \<and> n \<noteq> 215)
         then char_of (n + 32) else c)"

definition lower :: "string \<Rightarrow> string" where
  "lower s = map lower_char s"

definition strip :: "string \<Rightarrow> string" where
  "strip s = rev (dropWhile isspace (rev (dropWhile isspace s)))"

text \<open>\<open>split_loop cur s\<close>: \<open>str.split()\<close> with no separator, \<open>cur\<close> the word being read.\<close>

fun split_loop :: "string \<Rightarrow> string \<Rightarrow> string list" where
  "split_loop cur [] = (if cur = [] then [] else [cur])"
| "split_loop cur (c # cs) =
     (if isspace c
      then (if cur = [] then split_loop [] cs else cur # split_loop [] cs)
      else split_loop (cur @ [c]) cs)"

definition split :: "string \<Rightarrow> string list" where
  "split s = split_loop [] s"

text \<open>\<open>join ws\<close> is \<open>" ".join(ws)\<close>.\<close>

fun join :: "string list \<Rightarrow> string" where
  "join [] = []"
| "join [w] = w"
| "join (w # v # ws) = w @ CHR '' '' # join (v # ws)"

section \<open>RAG pipeline: chunking\<close>

text \<open>
  The loop of \<open>RagPipeline._chunk\<close>: \<open>current\<close> collects words, and is flushed to
  \<open>chunks\<close> as soon as it holds \<open>max_tokens\<close> of them; what is left is flushed at the end.
\<close>

fun chunk_loop :: "int \<Rightarrow> string list \<Rightarrow> string list \<Rightarrow> string list \<Rightarrow> string list" where
  "chunk_loop max_tokens [] current chunks =
     (if current \<noteq> [] then chunks @ [join current] else chunks)"
| "chunk_loop max_tokens (w # ws) current chunks =
     (let current' = current @ [w]
      in if int (length current') \<ge> max_tokens
         then chunk_loop max_tokens ws [] (chunks @ [join current'])
         else chunk_loop max_tokens ws current' chunks)"

definition chunk :: "string \<Rightarrow> int \<Rightarrow> string list" where
  "chunk text max_tokens = chunk_loop max_tokens (split text) [] []"

section \<open>RAG pipeline: embedding\<close>

datatype error = ValueError | AxisError | IndexError | OSError | BackendError | RuntimeError

text \<open>
  A float is a finite value, an infinity or a NaN. A vector is a list of floats; a
  two-dimensional array is its rows together with its number of columns, which an array
  without rows has too.
\<close>

datatype float_val = Finite real | PosInf | NegInf | NaN

type_synonym vector = "float_val list"

record ndarray =
  ncols :: nat
  rows :: "vector list"

text \<open>The state of the event loop that \<open>asyncio.get_event_loop()\<close> finds in the calling thread.\<close>

datatype loop_state = LoopIdle | LoopRunning | LoopClosed | NoLoop

text \<open>
  What one call of the pipeline sees of the world outside the repository:
  \<^item> \<open>py_hash\<close>: the interpreter's built-in \<open>hash\<close> on \<open>str\<close>, as it is in the
    running process (CPython salts it with a secret drawn at start-up, unless
    \<open>PYTHONHASHSEED\<close> fixes it);
  \<^item> \<open>standard_normal seed i\<close>: the \<open>i\<close>-th sample of
    \<open>np.random.default_rng(seed).standard_normal(n)\<close>;
  \<^item> \<open>ollama_embed i t\<close>: the outcome of the \<open>i\<close>-th call of \<open>OllamaClient.embed\<close>
    in this batch, on text \<open>t\<close>;
  \<^item> the floating-point arithmetic of numpy, taken as it is and not computed here:
    \<open>to_float32\<close> (the conversion of an entry by \<open>dtype=np.float32\<close>), \<open>linalg_norm\<close>
    (\<open>np.linalg.norm\<close> of a row), \<open>plus_1e_8\<close> (the sum of a float and \<open>1e-8\<close>),
    \<open>true_divide\<close> (the quotient of an entry by a float), \<open>np_dot\<close> (the entry that
    \<open>@\<close> computes from a row and a vector) and \<open>np_argsort\<close> (\<open>np.argsort\<close> with its
    default sort kind);
  \<^item> \<open>event_loop\<close>: the state of the event loop in the calling thread.
\<close>

record env =
  py_hash :: "string \<Rightarrow> int"
  standard_normal :: "nat \<Rightarrow> nat \<Rightarrow> float_val"
  ollama_embed :: "nat \<Rightarrow> string \<Rightarrow> error + vector"
  to_float32 :: "float_val \<Rightarrow> float_val"
  linalg_norm :: "vector \<Rightarrow> float_val"
  plus_1e_8 :: "float_val \<Rightarrow> float_val"
  true_divide :: "float_val \<Rightarrow> float_val \<Rightarrow> float_val"
  np_dot :: "vector \<Rightarrow> vector \<Rightarrow> float_val"
  np_argsort :: "vector \<Rightarrow> nat list"
  event_loop :: loop_state

text \<open>The module-level \<open>_normalize\<close> of \<open>rag/pipeline.py\<close>.\<close>

definition pipeline_normalize :: "env \<Rightarrow> vector \<Rightarrow> vector" where
  "pipeline_normalize e v =
     (let n = plus_1e_8 e (linalg_norm e v) in map (\<lambda>x. true_divide e x n) v)"

text \<open>The \<open>except\<close> branch of \<open>_embed_texts\<close>.\<close>

definition fallback_seed :: "env \<Rightarrow> string \<Rightarrow> nat" where
  "fallback_seed e t = nat (\<bar>py_hash e t\<bar> mod 10 ^ 8)"

definition fallback_vector :: "env \<Rightarrow> string \<Rightarrow> vector" where
  "fallback_vector e t = map (standard_normal e (fallback_seed e t)) [0..<384]"

text \<open>One iteration of the loop of \<open>_embed_texts\<close>: the vector appended for text \<open>t\<close>.\<close>

definition embed_one :: "env \<Rightarrow> nat \<Rightarrow> string \<Rightarrow> vector" where
  "embed_one e i t =
     (case ollama_embed e i t of
        Inl err \<Rightarrow> fallback_vector e t
      | Inr v \<Rightarrow> if v = [] then fallback_vector e t else v)"

fun embed_loop :: "env \<Rightarrow> nat \<Rightarrow> string list \<Rightarrow> vector list" where
  "embed_loop e i [] = []"
| "embed_loop e i (t # ts) = embed_one e i t # embed_loop e (Suc i) ts"

text \<open>
  \<open>np.array(vectors, dtype=np.float32)\<close> raises on rows of different lengths, and
  converts the entries otherwise.
\<close>

definition np_array :: "env \<Rightarrow> vector list \<Rightarrow> error + ndarray" where
  "np_array e vectors =
     (if \<forall>v \<in> set vectors. length v = length (hd vectors)
      then Inr \<lparr>ncols = (case vectors of [] \<Rightarrow> 0 | v # vs \<Rightarrow> length v),
                rows = map (map (to_float32 e)) vectors\<rparr>
      else Inl ValueError)"

text \<open>
  \<open>np.apply_along_axis(_normalize, 1, arr)\<close> needs a second axis, which the array
  built from no vectors does not have.
\<close>

definition embed_texts :: "env \<Rightarrow> string list \<Rightarrow> error + ndarray" where
  "embed_texts e texts =
     (case np_array e (embed_loop e 0 texts) of
        Inl err \<Rightarrow> Inl err
      | Inr arr \<Rightarrow>
          if rows arr = [] then Inl AxisError
          else Inr (arr\<lparr>rows := map (pipeline_normalize e) (rows arr)\<rparr>))"

section \<open>RAG pipeline: the corpus in memory and on disk\<close>

record pipeline =
  docs :: "string list"
  embeddings :: "ndarray option"

text \<open>
  The two artifacts under \<open>data_dir/rag\<close>: \<open>store.txt\<close> (its content, when the file
  exists) and \<open>emb.npy\<close> (the array it holds, or a file cut short by a failed write).
\<close>

datatype npy_file = Npy ndarray | Truncated

record disk =
  store_txt :: "string option"
  emb_npy :: "npy_file option"

text \<open>
  Reading \<open>store.txt\<close> in text mode: universal newlines turn \<open>\\r\\n\<close> and \<open>\\r\<close> into
  \<open>\\n\<close>, iterating the file yields the lines with their terminator, and
  \<open>rstrip("\\n")\<close> removes it.
\<close>

definition LF :: char where "LF = CHR 0x0A"
definition CR :: char where "CR = CHR 0x0D"

fun universal_newlines :: "string \<Rightarrow> string" where
  "universal_newlines [] = []"
| "universal_newlines [c] = (if c = CR then [LF] else [c])"
| "universal_newlines (c # c' # cs) =
     (if c = CR then (if c' = LF then LF # universal_newlines cs
                      else LF # universal_newlines (c' # cs))
      else c # universal_newlines (c' # cs))"

fun lines_loop :: "string \<Rightarrow> string \<Rightarrow> string list" where
  "lines_loop cur [] = (if cur = [] then [] else [cur])"
| "lines_loop cur (c # cs) =
     (if c = LF then (cur @ [c]) # lines_loop [] cs else lines_loop (cur @ [c]) cs)"

definition readlines :: "string \<Rightarrow> string list" where
  "readlines content = lines_loop [] (universal_newlines content)"

definition rstrip_nl :: "string \<Rightarrow> string" where
  "rstrip_nl line = rev (dropWhile (\<lambda>c. c = LF) (rev line))"

text \<open>\<open>RagPipeline._load\<close>, and the constructor that calls it on the fresh object.\<close>

definition load :: "pipeline \<Rightarrow> disk \<Rightarrow> error + pipeline" where
  "load p d =
     (let p1 = (case store_txt d of
                  None \<Rightarrow> p
                | Some content \<Rightarrow> p\<lparr>docs := map rstrip_nl (readlines content)\<rparr>)
      in case emb_npy d of
           None \<Rightarrow> Inr p1
         | Some (Npy m) \<Rightarrow> Inr (p1\<lparr>embeddings := Some m\<rparr>)
         | Some Truncated \<Rightarrow> Inl ValueError)"

definition new_pipeline :: "disk \<Rightarrow> error + pipeline" where
  "new_pipeline d = load \<lparr>docs = [], embeddings = None\<rparr> d"

text \<open>
  Where the persist step of \<open>_add_documents\<close> can fail: opening \<open>store.txt\<close> for
  writing, writing it (after so many characters), opening \<open>emb.npy\<close>, writing it.
\<close>

datatype io_fault = NoFault | StoreOpenFails | StoreWriteFails nat | EmbOpenFails | EmbWriteFails

text \<open>What the loop over \<open>self.docs\<close> writes (a \<open>\\n\<close> is written as it is, as on POSIX).\<close>

definition store_content :: "string list \<Rightarrow> string" where
  "store_content ds = concat (map (\<lambda>d. d @ [LF]) ds)"

text \<open>The last five lines of \<open>_add_documents\<close>: both files are rewritten in place.\<close>

definition persist :: "io_fault \<Rightarrow> string list \<Rightarrow> ndarray \<Rightarrow> disk \<Rightarrow> (error + unit) \<times> disk" where
  "persist io ds m d =
     (case io of
        StoreOpenFails \<Rightarrow> (Inl OSError, d)
      | StoreWriteFails k \<Rightarrow> (Inl OSError, d\<lparr>store_txt := Some (take k (store_content ds))\<rparr>)
      | EmbOpenFails \<Rightarrow> (Inl OSError, d\<lparr>store_txt := Some (store_content ds)\<rparr>)
      | EmbWriteFails \<Rightarrow>
          (Inl OSError, d\<lparr>store_txt := Some (store_content ds), emb_npy := Some Truncated\<rparr>)
      | NoFault \<Rightarrow>
          (Inr (), d\<lparr>store_txt := Some (store_content ds), emb_npy := Some (Npy m)\<rparr>))"

text \<open>\<open>np.vstack\<close> raises unless both arrays have the same number of columns.\<close>

definition np_vstack :: "ndarray \<Rightarrow> ndarray \<Rightarrow> error + ndarray" where
  "np_vstack a b =
     (if ncols a = ncols b then Inr \<lparr>ncols = ncols a, rows = rows a @ rows b\<rparr>
      else Inl ValueError)"

definition add_documents ::
  "env \<Rightarrow> io_fault \<Rightarrow> string list \<Rightarrow> pipeline \<times> disk \<Rightarrow> (error + unit) \<times> pipeline \<times> disk" where
  "add_documents e io chunks pd =
     (let p = fst pd; d = snd pd
      in if chunks = [] then (Inr (), p, d)
         else (case embed_texts e chunks of
                 Inl err \<Rightarrow> (Inl err, p, d)
               | Inr new_vecs \<Rightarrow>
                   (case (case embeddings p of
                            None \<Rightarrow> Inr new_vecs
                          | Some m \<Rightarrow> np_vstack m new_vecs) of
                      Inl err \<Rightarrow> (Inl err, p, d)
                    | Inr m' \<Rightarrow>
                        (let p' = p\<lparr>docs := docs p @ chunks, embeddings := Some m'\<rparr>;
                             rd = persist io (docs p') m' d
                         in (fst rd, p', snd rd)))))"

text \<open>
  \<open>save_and_ingest\<close>, from the text that decoding or PDF extraction gave: the upload is
  chunked with the default \<open>max_tokens\<close> and added.
\<close>

definition save_and_ingest ::
  "env \<Rightarrow> io_fault \<Rightarrow> string \<Rightarrow> pipeline \<times> disk \<Rightarrow> (error + unit) \<times> pipeline \<times> disk" where
  "save_and_ingest e io text pd = add_documents e io (chunk text 500) pd"

section \<open>RAG pipeline: retrieval\<close>

text \<open>
  \<open>self.embeddings @ qv\<close> raises unless the array has as many columns as \<open>qv\<close> has
  entries.
\<close>

definition matvec :: "env \<Rightarrow> ndarray \<Rightarrow> vector \<Rightarrow> error + vector" where
  "matvec e m qv =
     (if ncols m = length qv then Inr (map (\<lambda>r. np_dot e r qv) (rows m)) else Inl ValueError)"

text \<open>The negation of a float, entry by entry in \<open>-sims\<close>.\<close>

fun fneg :: "float_val \<Rightarrow> float_val" where
  "fneg (Finite x) = Finite (- x)"
| "fneg PosInf = NegInf"
| "fneg NegInf = PosInf"
| "fneg NaN = NaN"

text \<open>The slice \<open>xs[:k]\<close>, also for negative \<open>k\<close>.\<close>

definition slice_to :: "int \<Rightarrow> 'a list \<Rightarrow> 'a list" where
  "slice_to k xs = (if 0 \<le> k then take (nat k) xs else take (length xs - nat (- k)) xs)"

text \<open>
  \<open>RagPipeline.retrieve\<close>. After the guard it takes the event loop of the thread and
  calls \<open>run_until_complete\<close> on it, which raises \<open>RuntimeError\<close> unless the loop is
  there, open and not running.
\<close>

definition retrieve :: "env \<Rightarrow> pipeline \<Rightarrow> string \<Rightarrow> int \<Rightarrow> error + string list" where
  "retrieve e p query top_k =
     (case embeddings p of
        None \<Rightarrow> Inr []
      | Some m \<Rightarrow>
          if docs p = [] then Inr []
          else if event_loop e \<noteq> LoopIdle then Inl RuntimeError
          else (case embed_texts e [query] of
                  Inl err \<Rightarrow> Inl err
                | Inr qm \<Rightarrow>
                    (case matvec e m (hd (rows qm)) of
                       Inl err \<Rightarrow> Inl err
                     | Inr sims \<Rightarrow>
                         (let idxs = slice_to top_k (np_argsort e (map fneg sims))
                          in if \<forall>i \<in> set idxs. i < length (docs p)
                             then Inr (map (\<lambda>i. docs p ! i) idxs)
                             else Inl IndexError))))"

section \<open>Answer fusion\<close>

text \<open>\<open>MultiModelOrchestrator._normalize\<close>.\<close>

definition msync_normalize :: "string \<Rightarrow> string" where
  "msync_normalize text = join (split (lower text))"

text \<open>
  \<open>collections.Counter\<close> is a dict, which keeps its keys in insertion order: counting an
  element bumps its entry where it stands, or appends a new entry.
\<close>

fun counter_add :: "(string \<times> nat) list \<Rightarrow> string \<Rightarrow> (string \<times> nat) list" where
  "counter_add [] x = [(x, 1)]"
| "counter_add ((k, n) # kvs) x =
     (if k = x then (k, n + 1) # kvs else (k, n) # counter_add kvs x)"

definition Counter :: "string list \<Rightarrow> (string \<times> nat) list" where
  "Counter xs = foldl counter_add [] xs"

text \<open>
  \<open>most_common(1)\<close> is \<open>heapq.nlargest(1, items, key=count)\<close>, which is \<open>max\<close> over the
  items in dict order: a later item replaces the best one only with a strictly larger count.
\<close>

fun max_count :: "string \<times> nat \<Rightarrow> (string \<times> nat) list \<Rightarrow> string \<times> nat" where
  "max_count best [] = best"
| "max_count best (kv # kvs) =
     (if snd best < snd kv then max_count kv kvs else max_count best kvs)"

definition most_common1 :: "(string \<times> nat) list \<Rightarrow> (string \<times> nat) list" where
  "most_common1 counts = (case counts of [] \<Rightarrow> [] | kv # kvs \<Rightarrow> [max_count kv kvs])"

text \<open>\<open>max(non_empty, key=len)\<close>: the first of the longest answers.\<close>

fun max_len :: "string \<Rightarrow> string list \<Rightarrow> string" where
  "max_len best [] = best"
| "max_len best (a # as) =
     (if length best < length a then max_len a as else max_len best as)"

text \<open>The list \<open>non_empty\<close> of \<open>chat\<close>: the usable answers, stripped.\<close>

definition non_empty :: "string list \<Rightarrow> string list" where
  "non_empty answers = map strip (filter (\<lambda>a. a \<noteq> [] \<and> strip a \<noteq> []) answers)"

text \<open>
  \<open>fuse answers\<close> is the body of \<open>chat\<close> after \<open>asyncio.gather\<close>, on the answers in
  the order of the model list.
\<close>

definition fuse :: "string list \<Rightarrow> error + string" where
  "fuse answers =
     (let ne = non_empty answers
      in if ne = [] then Inr ''(no answer)''
         else let normalized = map msync_normalize ne;
                  counts = Counter normalized
              in case most_common1 counts of
                   [] \<Rightarrow> Inl IndexError
                 | (best_norm, _) # _ \<Rightarrow>
                     (let candidates = filter (\<lambda>a. msync_normalize a = best_norm) ne
                      in Inr (if candidates \<noteq> [] then hd candidates
                              else max_len (hd ne) (tl ne))))"

text \<open>
  The inner \<open>ask\<close>: a failed or timed-out call of \<open>OllamaClient.chat\<close> counts as the
  empty answer. \<open>ollama_chat i model prompt context\<close> is the outcome of the call for
  position \<open>i\<close> of the model list.
\<close>

definition ask ::
  "(nat \<Rightarrow> string \<Rightarrow> string \<Rightarrow> string option \<Rightarrow> error + string) \<Rightarrow>
   string \<Rightarrow> string option \<Rightarrow> nat \<Rightarrow> string \<Rightarrow> string" where
  "ask ollama_chat prompt context i model_name =
     (case ollama_chat i model_name prompt context of Inl err \<Rightarrow> [] | Inr a \<Rightarrow> a)"

text \<open>\<open>models or self.default_models\<close>.\<close>

definition model_list :: "string list \<Rightarrow> string list option \<Rightarrow> string list" where
  "model_list default_models models =
     (case models of None \<Rightarrow> default_models
      | Some ms \<Rightarrow> if ms = [] then default_models else ms)"

text \<open>\<open>asyncio.gather\<close> returns the answers in the order of the model list.\<close>

definition gather ::
  "(nat \<Rightarrow> string \<Rightarrow> string \<Rightarrow> string option \<Rightarrow> error + string) \<Rightarrow>
   string \<Rightarrow> string option \<Rightarrow> string list \<Rightarrow> string list" where
  "gather ollama_chat prompt context ms =
     map (\<lambda>i. ask ollama_chat prompt context i (ms ! i)) [0..<length ms]"

definition chat ::
  "(nat \<Rightarrow> string \<Rightarrow> string \<Rightarrow> string option \<Rightarrow> error + string) \<Rightarrow>
   string list \<Rightarrow> string \<Rightarrow> string list option \<Rightarrow> string option \<Rightarrow> error + string" where
  "chat ollama_chat default_models prompt models context =
     fuse (gather ollama_chat prompt context (model_list default_models models))"

section \<open>Notions used in the statements\<close>

text \<open>A word as \<open>str.split()\<close> yields it: not empty, no whitespace inside.\<close>

definition word_ok :: "string \<Rightarrow> bool" where
  "word_ok w = (w \<noteq> [] \<and> (\<forall>c \<in> set w. \<not> isspace c))"

text \<open>The normalized form that \<open>chat\<close> takes as \<open>best_norm\<close>, when there is a usable answer.\<close>

definition best_norm :: "string list \<Rightarrow> string option" where
  "best_norm answers =
     (case most_common1 (Counter (map msync_normalize (non_empty answers))) of
        [] \<Rightarrow> None
      | (b, _) # _ \<Rightarrow> Some b)"

text \<open>
  What the counter \<open>c\<close> built from the list \<open>xs\<close> is: one entry per distinct element,
  with its number of occurrences, the entries standing in the order of first occurrence.
\<close>

definition counts_of :: "string list \<Rightarrow> (string \<times> nat) list \<Rightarrow> bool" where
  "counts_of xs c =
     (distinct (map fst c) \<and> set (map fst c) = set xs \<and>
      (\<forall>k \<in> set xs. map_of c k = Some (count_list xs k)) \<and>
      (\<forall>w \<in> set xs. set (takeWhile (\<lambda>y. y \<noteq> w) xs) =
                      set (takeWhile (\<lambda>y. y \<noteq> w) (map fst c))))"

text \<open>Cutting \<open>k\<close> words greedily into blocks of \<open>n\<close>: the sizes of the blocks.\<close>

definition block_sizes :: "nat \<Rightarrow> nat \<Rightarrow> nat list" where
  "block_sizes n k = replicate (k div n) n @ (if k mod n = 0 then [] else [k mod n])"

text \<open>The corpus in memory is aligned: one row of the matrix per chunk.\<close>

definition aligned :: "pipeline \<Rightarrow> bool" where
  "aligned p =
     (case embeddings p of None \<Rightarrow> docs p = [] | Some m \<Rightarrow> length (rows m) = length (docs p))"

text \<open>The embedding call for text \<open>t\<close> failed or gave the empty vector.\<close>

definition fell_back :: "env \<Rightarrow> nat \<Rightarrow> string \<Rightarrow> bool" where
  "fell_back e i t = (case ollama_embed e i t of Inl err \<Rightarrow> True | Inr v \<Rightarrow> v = [])"

text \<open>No chunk holds a line terminator, so each is one line of \<open>store.txt\<close>.\<close>

definition one_line :: "string \<Rightarrow> bool" where
  "one_line s = (LF \<notin> set s \<and> CR \<notin> set s)"

text \<open>What a reload finds on disk: the lines of the text artifact, the rows of the matrix.\<close>

definition lines_on_disk :: "disk \<Rightarrow> nat" where
  "lines_on_disk d = (case store_txt d of None \<Rightarrow> 0 | Some content \<Rightarrow> length (readlines content))"

definition rows_on_disk :: "disk \<Rightarrow> nat option" where
  "rows_on_disk d =
     (case emb_npy d of
        None \<Rightarrow> Some 0
      | Some (Npy m) \<Rightarrow> Some (length (rows m))
      | Some Truncated \<Rightarrow> None)"

text \<open>
  The states a pipeline object and its directory can be in: the object is built over some
  directory content, and then takes ingest calls, each in any environment and with any
  outcome.
\<close>

inductive reachable :: "pipeline \<times> disk \<Rightarrow> bool" where
  start: "new_pipeline d = Inr p \<Longrightarrow> reachable (p, d)"
| ingest: "reachable (p, d) \<Longrightarrow> save_and_ingest e io text (p, d) = (r, p', d') \<Longrightarrow>
           reachable (p', d')"

subsection \<open>Sample environments\<close>

text \<open>
  Environments for the concrete runs below. The hash, the generator and the arithmetic are
  stand-ins; the runs do not depend on their values. The event loop is idle, as it is for
  a caller outside the server.
\<close>

definition sample_env :: "(nat \<Rightarrow> string \<Rightarrow> error + vector) \<Rightarrow> env" where
  "sample_env emb =
     \<lparr>py_hash = (\<lambda>t. int (length t)),
      standard_normal = (\<lambda>seed i. Finite 1),
      ollama_embed = emb,
      to_float32 = (\<lambda>x. x),
      linalg_norm = (\<lambda>v. Finite 1),
      plus_1e_8 = (\<lambda>x. x),
      true_divide = (\<lambda>x n. x),
      np_dot = (\<lambda>u v. Finite 0),
      np_argsort = (\<lambda>xs. [0..<length xs]),
      event_loop = LoopIdle\<rparr>"

definition backend_down :: env where
  "backend_down = sample_env (\<lambda>i t. Inl BackendError)"

definition backend_2d :: env where
  "backend_2d = sample_env (\<lambda>i t. Inr [Finite 3, Finite 4])"

text \<open>
  The environment of \<open>retrieve\<close> at its call site, \<open>async def chat\<close> of \<open>main.py\<close>: the
  loop of the server is running.
\<close>

definition in_chat_handler :: env where
  "in_chat_handler = backend_2d\<lparr>event_loop := LoopRunning\<rparr>"

definition no_disk :: disk where
  "no_disk = \<lparr>store_txt = None, emb_npy = None\<rparr>"

definition empty_pipeline :: pipeline where
  "empty_pipeline = \<lparr>docs = [], embeddings = None\<rparr>"

text \<open>A directory holding \<open>store.txt\<close> with one line and no \<open>emb.npy\<close>.\<close>

definition store_only :: disk where
  "store_only = \<lparr>store_txt = Some (''a'' @ [LF]), emb_npy = None\<rparr>"

text \<open>A corpus of two chunks with two-dimensional vectors.\<close>

definition two_docs :: pipeline where
  "two_docs =
     \<lparr>docs = [''a'', ''b''],
      embeddings = Some \<lparr>ncols = 2, rows = [ [Finite 1, Finite 0], [Finite 0, Finite 1]]\<rparr>\<rparr>"

definition two_docs_disk :: disk where
  "two_docs_disk =
     \<lparr>store_txt = Some (''a'' @ [LF] @ ''b'' @ [LF]),
      emb_npy = Some (Npy \<lparr>ncols = 2, rows = [ [Finite 1, Finite 0], [Finite 0, Finite 1]]\<rparr>)\<rparr>"

text \<open>The first upload into an empty directory, with the embedding backend down.\<close>

definition first_ingest :: "(error + unit) \<times> pipeline \<times> disk" where
  "first_ingest =
     save_and_ingest backend_down NoFault ''hello world'' (empty_pipeline, no_disk)"

text \<open>The first upload into an empty directory, when \<open>emb.npy\<close> cannot be opened.\<close>

definition ingest_emb_open_fails :: "(error + unit) \<times> pipeline \<times> disk" where
  "ingest_emb_open_fails =
     save_and_ingest backend_2d EmbOpenFails ''a'' (empty_pipeline, no_disk)"

text \<open>An upload into a pipeline that was built over the directory \<open>store_only\<close>.\<close>

definition ingest_after_store_only :: "(error + unit) \<times> pipeline \<times> disk" where
  "ingest_after_store_only =
     save_and_ingest backend_2d NoFault ''b'' (\<lparr>docs = [''a''], embeddings = None\<rparr>, store_only)"

text \<open>The first upload into an empty directory, with the backend up.\<close>

definition ingest_2d :: "(error + unit) \<times> pipeline \<times> disk" where
  "ingest_2d = save_and_ingest backend_2d NoFault ''a'' (empty_pipeline, no_disk)"

section \<open>Properties\<close>


subsection \<open>Splitting and joining\<close>

lemma split_loop_words:
  "\<forall>c \<in> set cur. \<not> isspace c \<Longrightarrow> \<forall>w \<in> set (split_loop cur s). word_ok w"
proof (induction s arbitrary: cur)
  case Nil
  then show ?case by (simp add: word_ok_def)
next
  case (Cons a s)
  have e: "\<forall>w \<in> set (split_loop [] s). word_ok w" by (rule Cons.IH) simp
  show ?case
  proof (cases "isspace a")
    case True
    with e Cons.prems show ?thesis by (auto simp: word_ok_def)
  next
    case False
    with Cons.prems have "\<forall>w \<in> set (split_loop (cur @ [a]) s). word_ok w"
      by (intro Cons.IH) auto
    with False show ?thesis by simp
  qed
qed

lemma split_words: "w \<in> set (split s) \<Longrightarrow> word_ok w"
  using split_loop_words[of "[]" s] by (simp add: split_def)

lemma split_loop_append_word:
  "\<forall>c \<in> set w. \<not> isspace c \<Longrightarrow> split_loop cur (w @ s) = split_loop (cur @ w) s"
  by (induction w arbitrary: cur) auto

lemma isspace_space: "isspace CHR '' ''"
  by (simp add: isspace_def)

lemma split_loop_join:
  "\<forall>w \<in> set ws. word_ok w \<Longrightarrow> ws \<noteq> [] \<Longrightarrow> split_loop [] (join ws) = ws"
proof (induction ws rule: join.induct)
  case 1 then show ?case by simp
next
  case (2 w)
  then have "split_loop [] (w @ []) = split_loop ([] @ w) []"
    by (intro split_loop_append_word) (simp add: word_ok_def)
  with 2 show ?case by (simp add: word_ok_def)
next
  case (3 w v ws)
  then have w: "w \<noteq> []" "\<forall>c \<in> set w. \<not> isspace c" by (auto simp: word_ok_def)
  have "split_loop [] (join (w # v # ws)) = split_loop ([] @ w) (CHR '' '' # join (v # ws))"
    using split_loop_append_word[OF w(2), of "[]"] by simp
  also have "\<dots> = w # split_loop [] (join (v # ws))"
    using w(1) by (simp add: isspace_space)
  finally show ?case using 3 by simp
qed

lemma split_join: "\<forall>w \<in> set ws. word_ok w \<Longrightarrow> split (join ws) = ws"
  by (cases "ws = []") (simp_all add: split_def split_loop_join)

subsection \<open>The chunking loop\<close>

lemma chunk_loop_short:
  "int (length current + length ws) < m \<Longrightarrow>
   chunk_loop m ws current chunks =
     (if current @ ws \<noteq> [] then chunks @ [join (current @ ws)] else chunks)"
  by (induction ws arbitrary: current) (auto simp: Let_def)

lemma chunk_loop_append:
  "length current + length ws = n \<Longrightarrow> ws \<noteq> [] \<Longrightarrow>
   chunk_loop (int n) (ws @ rest) current chunks =
     chunk_loop (int n) rest [] (chunks @ [join (current @ ws)])"
proof (induction ws arbitrary: current)
  case Nil
  then show ?case by simp
next
  case (Cons w ws)
  show ?case
  proof (cases "ws = []")
    case True
    with Cons.prems show ?thesis by (simp add: Let_def)
  next
    case False
    then obtain v vs where "ws = v # vs" by (cases ws) auto
    with Cons.prems have "\<not> n \<le> Suc (length current)" by simp
    with False Cons.prems Cons.IH[of "current @ [w]"] show ?thesis by (simp add: Let_def)
  qed
qed

lemma block_sizes_less: "0 < k \<Longrightarrow> k < n \<Longrightarrow> block_sizes n k = [k]"
  by (simp add: block_sizes_def)

lemma block_sizes_0: "block_sizes n 0 = []"
  by (simp add: block_sizes_def)

lemma block_sizes_add: "0 < n \<Longrightarrow> block_sizes n (n + k) = n # block_sizes n k"
  by (simp add: block_sizes_def)

text \<open>The chunks are the blocks of \<open>n\<close> words, the last one holding what is left.\<close>

lemma chunk_loop_blocks:
  "0 < n \<Longrightarrow> length current < n \<Longrightarrow>
   \<exists>gs. chunk_loop (int n) ws current chunks = chunks @ map join gs \<and>
        concat gs = current @ ws \<and> [] \<notin> set gs \<and>
        map length gs = block_sizes n (length current + length ws)"
proof (induction ws arbitrary: current chunks)
  case Nil
  show ?case
  proof (cases "current = []")
    case True
    then show ?thesis by (intro exI[of _ "[]"]) (simp add: block_sizes_0)
  next
    case False
    with Nil.prems show ?thesis
      by (intro exI[of _ "[current]"]) (simp add: block_sizes_less)
  qed
next
  case (Cons w ws)
  show ?case
  proof (cases "Suc (length current) = n")
    case True
    obtain gs where gs:
      "chunk_loop (int n) ws [] (chunks @ [join (current @ [w])]) =
         (chunks @ [join (current @ [w])]) @ map join gs"
      "concat gs = [] @ ws" "[] \<notin> set gs"
      "map length gs = block_sizes n (length ([]::string list) + length ws)"
      using Cons.IH[of "[]" "chunks @ [join (current @ [w])]"] Cons.prems by auto
    have step: "chunk_loop (int n) (w # ws) current chunks =
                chunk_loop (int n) ws [] (chunks @ [join (current @ [w])])"
      using True by (simp add: Let_def)
    have len: "length current + length (w # ws) = n + length ws"
      using True by simp
    show ?thesis
      apply (rule exI[of _ "(current @ [w]) # gs"])
      using gs True Cons.prems(1) unfolding step len by (simp add: block_sizes_add)
  next
    case False
    with Cons.prems have lt: "length (current @ [w]) < n" by simp
    obtain gs where gs:
      "chunk_loop (int n) ws (current @ [w]) chunks = chunks @ map join gs"
      "concat gs = (current @ [w]) @ ws" "[] \<notin> set gs"
      "map length gs = block_sizes n (length (current @ [w]) + length ws)"
      using Cons.IH[OF Cons.prems(1) lt, of chunks] by auto
    have step: "chunk_loop (int n) (w # ws) current chunks =
                chunk_loop (int n) ws (current @ [w]) chunks"
      using lt by (simp add: Let_def)
    show ?thesis
      apply (rule exI[of _ gs])
      using gs unfolding step by simp
  qed
qed

lemma chunk_blocks:
  "\<exists>gs. chunk t 500 = map join gs \<and> concat gs = split t \<and> [] \<notin> set gs \<and>
        map length gs = block_sizes 500 (length (split t))"
  using chunk_loop_blocks[of 500 "[]" "split t" "[]"] by (simp add: chunk_def)


lemma chunk_split:
  "\<exists>gs. chunk t 500 = map join gs \<and> map split (chunk t 500) = gs \<and> concat gs = split t \<and>
        [] \<notin> set gs \<and> map length gs = block_sizes 500 (length (split t))"
proof -
  obtain gs where gs: "chunk t 500 = map join gs" "concat gs = split t" "[] \<notin> set gs"
    "map length gs = block_sizes 500 (length (split t))"
    using chunk_blocks by blast
  have "\<forall>g \<in> set gs. \<forall>w \<in> set g. word_ok w"
  proof (intro ballI)
    fix g w assume "g \<in> set gs" "w \<in> set g"
    then have "w \<in> set (concat gs)" by auto
    then show "word_ok w" using gs(2) split_words by simp
  qed
  then have "map split (map join gs) = gs"
    by (simp add: split_join map_idI)
  with gs show ?thesis by auto
qed

lemma block_sizes_le: "0 < n \<Longrightarrow> b \<in> set (block_sizes n k) \<Longrightarrow> 0 < b \<and> b \<le> n"
  by (auto simp: block_sizes_def split: if_splits)

text \<open>
  C6. Chunking cuts the whitespace-delimited words of the text greedily into chunks of at
  most 500: no words give no chunk (the empty text in particular), exactly 500 words give
  one chunk, 501 words give two chunks, of 500 words and of 1 word. In general the chunks
  hold the words of the text in order, 500 in each but possibly the last, and between 1
  and 500 in every one.
\<close>

theorem chunk_500_words:
  "chunk [] 500 = [] \<and>
   (split t = [] \<longrightarrow> chunk t 500 = []) \<and>
   (length (split t) = 500 \<longrightarrow> chunk t 500 = [join (split t)]) \<and>
   (length (split t) = 501 \<longrightarrow>
      chunk t 500 = [join (take 500 (split t)), join (drop 500 (split t))]) \<and>
   map (\<lambda>c. length (split c)) (chunk t 500) = block_sizes 500 (length (split t)) \<and>
   (\<forall>c \<in> set (chunk t 500). 0 < length (split c) \<and> length (split c) \<le> 500) \<and>
   concat (map split (chunk t 500)) = split t"
proof -
  obtain gs where gs: "chunk t 500 = map join gs" "map split (chunk t 500) = gs"
    "concat gs = split t" "map length gs = block_sizes 500 (length (split t))"
    using chunk_split by blast
  have sizes: "map (\<lambda>c. length (split c)) (chunk t 500) = block_sizes 500 (length (split t))"
    using gs(2,4) by (metis (no_types, lifting) map_map comp_def map_eq_conv)
  have c0: "chunk [] 500 = []" by (simp add: chunk_def split_def)
  have c1: "chunk t 500 = []" if "split t = []"
    using that by (simp add: chunk_def)
  have c2: "chunk t 500 = [join (split t)]" if "length (split t) = 500"
  proof -
    have "map length gs = [500]" using gs(4) that by (simp add: block_sizes_def)
    then obtain g where "gs = [g]" by (cases gs) auto
    with gs(1,3) show ?thesis by simp
  qed
  have c3: "chunk t 500 = [join (take 500 (split t)), join (drop 500 (split t))]"
    if "length (split t) = 501"
  proof -
    have "map length gs = [500, 1]" using gs(4) that by (simp add: block_sizes_def)
    then obtain g h where gh: "gs = [g, h]" "length g = 500"
      by (cases gs; cases "tl gs") auto
    with gs(3) have "split t = g @ h" by simp
    with gh have "take 500 (split t) = g" "drop 500 (split t) = h" by simp_all
    with gs(1) gh show ?thesis by simp
  qed
  have bound: "\<forall>c \<in> set (chunk t 500). 0 < length (split c) \<and> length (split c) \<le> 500"
  proof
    fix c assume "c \<in> set (chunk t 500)"
    then have "length (split c) \<in> set (map (\<lambda>c. length (split c)) (chunk t 500))" by auto
    then have "length (split c) \<in> set (block_sizes 500 (length (split t)))"
      by (simp only: sizes)
    then show "0 < length (split c) \<and> length (split c) \<le> 500"
      by (rule block_sizes_le[rotated]) simp
  qed
  have cc: "concat (map split (chunk t 500)) = split t" using gs(2,3) by simp
  from c0 c1 c2 c3 sizes bound cc show ?thesis by blast
qed

lemma split_replicate_w: "split (join (replicate n ''w'')) = replicate n ''w''"
  by (rule split_join) (simp add: word_ok_def isspace_def)

text \<open>The three cases on the empty text and on texts of 500 and of 501 words.\<close>

theorem chunk_500_words_witness:
  "chunk [] 500 = [] \<and>
   length (split (join (replicate 500 ''w''))) = 500 \<and>
   chunk (join (replicate 500 ''w'')) 500 = [join (replicate 500 ''w'')] \<and>
   length (split (join (replicate 501 ''w''))) = 501 \<and>
   chunk (join (replicate 501 ''w'')) 500 = [join (replicate 500 ''w''), ''w'']"
  using chunk_500_words[of "[]"] chunk_500_words[of "join (replicate 500 ''w'')"]
    chunk_500_words[of "join (replicate 501 ''w'')"]
  by (simp add: split_replicate_w)


subsection \<open>Degenerate inputs\<close>

text \<open>
  C10. On an empty corpus, that is with no embedding matrix or with no stored chunk,
  \<open>retrieve\<close> returns the empty list, for every query and every \<open>top_k\<close>, and raises
  nothing.
\<close>

theorem retrieve_empty_corpus:
  "embeddings p = None \<or> docs p = [] \<Longrightarrow> retrieve e p query top_k = Inr []"
  by (auto simp: retrieve_def split: option.splits)

text \<open>The freshly built pipeline over an empty directory, with the backend down.\<close>

theorem retrieve_empty_corpus_witness:
  "(embeddings empty_pipeline = None \<or> docs empty_pipeline = []) \<and>
   retrieve backend_down empty_pipeline ''what is up'' 4 = Inr []"
  using retrieve_empty_corpus[of empty_pipeline backend_down "''what is up''" 4]
  by (simp add: empty_pipeline_def)

lemma non_empty_Nil:
  "(\<forall>a \<in> set answers. strip a = []) \<Longrightarrow> non_empty answers = []"
  by (simp add: non_empty_def filter_empty_conv)

lemma strip_Nil: "strip [] = []"
  by (simp add: strip_def)

text \<open>
  C9. When every dispatched model call fails (a time-out is a failure of the call) or
  returns an empty or whitespace-only answer, \<open>chat\<close> returns the sentinel
  \<open>(no answer)\<close>, and no error.
\<close>

theorem chat_no_answer:
  "\<forall>i < length (model_list default_models models).
     (\<exists>err. ollama_chat i (model_list default_models models ! i) prompt context = Inl err) \<or>
     (\<exists>a. ollama_chat i (model_list default_models models ! i) prompt context = Inr a \<and>
          strip a = []) \<Longrightarrow>
   chat ollama_chat default_models prompt models context = Inr ''(no answer)''"
proof -
  assume h: "\<forall>i < length (model_list default_models models).
     (\<exists>err. ollama_chat i (model_list default_models models ! i) prompt context = Inl err) \<or>
     (\<exists>a. ollama_chat i (model_list default_models models ! i) prompt context = Inr a \<and>
          strip a = [])"
  let ?ms = "model_list default_models models"
  have "\<forall>a \<in> set (gather ollama_chat prompt context ?ms). strip a = []"
  proof
    fix a assume "a \<in> set (gather ollama_chat prompt context ?ms)"
    then obtain i where i: "i < length ?ms" "a = ask ollama_chat prompt context i (?ms ! i)"
      by (auto simp: gather_def)
    with h show "strip a = []"
      by (auto simp: ask_def strip_Nil)
  qed
  then have "non_empty (gather ollama_chat prompt context ?ms) = []"
    by (rule non_empty_Nil)
  then show ?thesis by (simp add: chat_def fuse_def)
qed

text \<open>Two default models: the first call fails, the second answers two blanks.\<close>

theorem chat_no_answer_witness:
  "chat (\<lambda>i m p c. if i = 0 then Inl BackendError else Inr ''  '') [''llama3'', ''mistral'']
     ''hello'' None None = Inr ''(no answer)''"
  by (rule chat_no_answer) (simp add: model_list_def strip_def isspace_def less_Suc_eq)


subsection \<open>Normalization of answers\<close>

lemma isspace_lower_char: "isspace (lower_char c) = isspace c"
proof -
  have "of_char c < (256::nat)" by simp
  then show ?thesis
    by (auto simp: isspace_def lower_char_def Let_def)
qed

lemma lower_simps:
  "lower [] = []" "lower (c # s) = lower_char c # lower s"
  "lower (s @ t) = lower s @ lower t" "(lower s = []) = (s = [])"
  by (simp_all add: lower_def)

lemma split_loop_lower:
  "split_loop (lower cur) (lower s) = map lower (split_loop cur s)"
proof (induction s arbitrary: cur)
  case Nil
  then show ?case by (simp add: lower_simps)
next
  case (Cons a s)
  from Cons[of "[]"] Cons[of "cur @ [a]"] show ?case
    by (simp add: lower_simps isspace_lower_char)
qed

lemma split_lower: "split (lower s) = map lower (split s)"
  using split_loop_lower[of "[]" s] by (simp add: split_def lower_simps)

lemma split_loop_dropWhile:
  "split_loop [] (dropWhile isspace s) = split_loop [] s"
  by (induction s) auto

lemma split_loop_trailing:
  "\<forall>c \<in> set ws. isspace c \<Longrightarrow> split_loop cur (s @ ws) = split_loop cur s"
proof (induction s arbitrary: cur)
  case Nil
  then show ?case by (induction ws arbitrary: cur) auto
next
  case (Cons a s)
  then show ?case by simp
qed

lemma split_strip: "split (strip s) = split s"
proof -
  let ?t = "dropWhile isspace s"
  have "?t = rev (dropWhile isspace (rev ?t)) @ rev (takeWhile isspace (rev ?t))"
    by (metis rev_append rev_rev_ident takeWhile_dropWhile_id)
  moreover have "\<forall>c \<in> set (rev (takeWhile isspace (rev ?t))). isspace c"
    by (auto dest: set_takeWhileD)
  ultimately have "split_loop [] ?t = split_loop [] (rev (dropWhile isspace (rev ?t)))"
    by (metis split_loop_trailing)
  then show ?thesis
    by (simp add: split_def strip_def split_loop_dropWhile)
qed

lemma msync_normalize_words: "msync_normalize a = join (map lower (split a))"
  by (simp add: msync_normalize_def split_lower)

lemma msync_normalize_strip: "msync_normalize (strip a) = msync_normalize a"
  by (simp add: msync_normalize_words split_strip)

subsection \<open>Counting\<close>

lemma keys_counter_add:
  "map fst (counter_add c x) = (if x \<in> set (map fst c) then map fst c else map fst c @ [x])"
  by (induction c x rule: counter_add.induct) auto

lemma map_of_counter_add:
  "map_of (counter_add c x) =
     (map_of c)(x \<mapsto> (case map_of c x of None \<Rightarrow> 1 | Some n \<Rightarrow> n + 1))"
  by (induction c x rule: counter_add.induct) (auto simp: fun_eq_iff)

lemma counts_of_snoc:
  assumes "counts_of xs c"
  shows "counts_of (xs @ [x]) (counter_add c x)"
proof -
  from assms have d: "distinct (map fst c)" and k: "set (map fst c) = set xs"
    and n: "\<forall>k \<in> set xs. map_of c k = Some (count_list xs k)"
    and o: "\<forall>w \<in> set xs. set (takeWhile (\<lambda>y. y \<noteq> w) xs) =
                      set (takeWhile (\<lambda>y. y \<noteq> w) (map fst c))"
    by (auto simp: counts_of_def)
  show ?thesis
  proof (cases "x \<in> set xs")
    case True
    have keys: "map fst (counter_add c x) = map fst c"
      using True k by (simp add: keys_counter_add)
    have "\<forall>k \<in> set (xs @ [x]). map_of (counter_add c x) k = Some (count_list (xs @ [x]) k)"
      using n True by (auto simp: map_of_counter_add)
    moreover have "\<forall>w \<in> set (xs @ [x]). set (takeWhile (\<lambda>y. y \<noteq> w) (xs @ [x])) =
                      set (takeWhile (\<lambda>y. y \<noteq> w) (map fst c))"
      using o True by (auto simp: takeWhile_append1)
    ultimately show ?thesis
      using d k True unfolding counts_of_def keys by auto
  next
    case False
    have keys: "map fst (counter_add c x) = map fst c @ [x]"
      using False k by (simp add: keys_counter_add)
    have none: "map_of c x = None"
      using False k by (metis map_of_eq_None_iff set_map)
    have "\<forall>k \<in> set (xs @ [x]). map_of (counter_add c x) k = Some (count_list (xs @ [x]) k)"
      using n False none by (auto simp: map_of_counter_add)
    moreover have "\<forall>w \<in> set (xs @ [x]). set (takeWhile (\<lambda>y. y \<noteq> w) (xs @ [x])) =
                      set (takeWhile (\<lambda>y. y \<noteq> w) (map fst c @ [x]))"
    proof
      fix w assume "w \<in> set (xs @ [x])"
      then consider "w \<in> set xs" | "w = x" by auto
      then show "set (takeWhile (\<lambda>y. y \<noteq> w) (xs @ [x])) =
                 set (takeWhile (\<lambda>y. y \<noteq> w) (map fst c @ [x]))"
      proof cases
        case 1
        then have "w \<in> set (map fst c)" using k by simp
        with 1 o show ?thesis by (simp add: takeWhile_append1)
      next
        case 2
        have "takeWhile (\<lambda>y. y \<noteq> x) (xs @ [x]) = xs"
          using False by (subst takeWhile_append2) auto
        moreover have "takeWhile (\<lambda>y. y \<noteq> x) (map fst c @ [x]) = map fst c"
          using False k by (subst takeWhile_append2) auto
        ultimately show ?thesis using k 2 by simp
      qed
    qed
    ultimately show ?thesis
      using d k False unfolding counts_of_def keys by auto
  qed
qed

lemma counts_of_Counter: "counts_of xs (Counter xs)"
proof (induction xs rule: rev_induct)
  case Nil
  then show ?case by (simp add: counts_of_def Counter_def)
next
  case (snoc x xs)
  then show ?case using counts_of_snoc[of xs "Counter xs" x] by (simp add: Counter_def)
qed

subsection \<open>The first maximum\<close>

lemma max_count_first:
  "max_count best kvs = m \<Longrightarrow>
   (m = best \<and> (\<forall>kv \<in> set kvs. snd kv \<le> snd best)) \<or>
   (\<exists>pre post. kvs = pre @ m # post \<and> snd best < snd m \<and>
      (\<forall>kv \<in> set pre. snd kv < snd m) \<and> (\<forall>kv \<in> set post. snd kv \<le> snd m))"
proof (induction kvs arbitrary: best)
  case Nil
  then show ?case by simp
next
  case (Cons kv kvs)
  show ?case
  proof (cases "snd best < snd kv")
    case True
    with Cons.prems have "max_count kv kvs = m" by simp
    from Cons.IH[OF this] show ?thesis
    proof
      assume "m = kv \<and> (\<forall>x \<in> set kvs. snd x \<le> snd kv)"
      with True have "kv # kvs = [] @ m # kvs \<and> snd best < snd m \<and>
        (\<forall>x \<in> set []. snd x < snd m) \<and> (\<forall>x \<in> set kvs. snd x \<le> snd m)" by simp
      then show ?thesis by blast
    next
      assume "\<exists>pre post. kvs = pre @ m # post \<and> snd kv < snd m \<and>
        (\<forall>x \<in> set pre. snd x < snd m) \<and> (\<forall>x \<in> set post. snd x \<le> snd m)"
      then obtain pre post where "kvs = pre @ m # post" "snd kv < snd m"
        "\<forall>x \<in> set pre. snd x < snd m" "\<forall>x \<in> set post. snd x \<le> snd m" by blast
      with True have "kv # kvs = (kv # pre) @ m # post \<and> snd best < snd m \<and>
        (\<forall>x \<in> set (kv # pre). snd x < snd m) \<and> (\<forall>x \<in> set post. snd x \<le> snd m)" by simp
      then show ?thesis by blast
    qed
  next
    case False
    with Cons.prems have "max_count best kvs = m" by simp
    from Cons.IH[OF this] show ?thesis
    proof
      assume "m = best \<and> (\<forall>x \<in> set kvs. snd x \<le> snd best)"
      with False show ?thesis by simp
    next
      assume "\<exists>pre post. kvs = pre @ m # post \<and> snd best < snd m \<and>
        (\<forall>x \<in> set pre. snd x < snd m) \<and> (\<forall>x \<in> set post. snd x \<le> snd m)"
      then obtain pre post where "kvs = pre @ m # post" "snd best < snd m"
        "\<forall>x \<in> set pre. snd x < snd m" "\<forall>x \<in> set post. snd x \<le> snd m" by blast
      with False have "kv # kvs = (kv # pre) @ m # post \<and> snd best < snd m \<and>
        (\<forall>x \<in> set (kv # pre). snd x < snd m) \<and> (\<forall>x \<in> set post. snd x \<le> snd m)" by simp
      then show ?thesis by blast
    qed
  qed
qed

lemma max_count_split:
  "max_count best kvs = m \<Longrightarrow>
   \<exists>pre post. best # kvs = pre @ m # post \<and>
      (\<forall>kv \<in> set pre. snd kv < snd m) \<and> (\<forall>kv \<in> set post. snd kv \<le> snd m)"
proof -
  assume "max_count best kvs = m"
  from max_count_first[OF this] show ?thesis
  proof
    assume "m = best \<and> (\<forall>kv \<in> set kvs. snd kv \<le> snd best)"
    then have "best # kvs = [] @ m # kvs \<and> (\<forall>kv \<in> set []. snd kv < snd m) \<and>
      (\<forall>kv \<in> set kvs. snd kv \<le> snd m)" by simp
    then show ?thesis by blast
  next
    assume "\<exists>pre post. kvs = pre @ m # post \<and> snd best < snd m \<and>
      (\<forall>kv \<in> set pre. snd kv < snd m) \<and> (\<forall>kv \<in> set post. snd kv \<le> snd m)"
    then obtain pre post where "kvs = pre @ m # post" "snd best < snd m"
      "\<forall>x \<in> set pre. snd x < snd m" "\<forall>x \<in> set post. snd x \<le> snd m" by blast
    then have "best # kvs = (best # pre) @ m # post \<and>
      (\<forall>kv \<in> set (best # pre). snd kv < snd m) \<and> (\<forall>kv \<in> set post. snd kv \<le> snd m)" by simp
    then show ?thesis by blast
  qed
qed


subsection \<open>The winner of the vote\<close>

lemma most_common1_Counter:
  assumes "ns \<noteq> []"
  shows "\<exists>w pre post. most_common1 (Counter ns) = [(w, count_list ns w)] \<and> w \<in> set ns \<and>
           Counter ns = pre @ (w, count_list ns w) # post \<and>
           (\<forall>kv \<in> set pre. snd kv < count_list ns w) \<and>
           (\<forall>kv \<in> set post. snd kv \<le> count_list ns w)"
proof -
  let ?c = "Counter ns"
  have c: "counts_of ns ?c" by (rule counts_of_Counter)
  then have d: "distinct (map fst ?c)" and k: "set (map fst ?c) = set ns"
    and n: "\<forall>k \<in> set ns. map_of ?c k = Some (count_list ns k)"
    by (auto simp: counts_of_def)
  from k assms obtain kv kvs where kv: "?c = kv # kvs" by (cases ?c) auto
  obtain w cnt where m: "max_count kv kvs = (w, cnt)" by (cases "max_count kv kvs")
  from max_count_split[OF m] obtain pre post where
    sp: "kv # kvs = pre @ (w, cnt) # post" "\<forall>x \<in> set pre. snd x < cnt"
        "\<forall>x \<in> set post. snd x \<le> cnt" by auto
  have mem: "(w, cnt) \<in> set ?c" using sp(1) kv by simp
  then have w: "w \<in> set ns" using k by (metis fst_conv image_eqI set_map)
  from mem d have "map_of ?c w = Some cnt" by simp
  with n w have cnt: "cnt = count_list ns w" by simp
  have "most_common1 ?c = [(w, cnt)]" using kv m by (simp add: most_common1_def)
  with w sp kv cnt show ?thesis by auto
qed


lemma fuse_candidates:
  assumes "non_empty answers \<noteq> []"
  shows "\<exists>w. best_norm answers = Some w \<and>
           filter (\<lambda>a. msync_normalize a = w) (non_empty answers) \<noteq> [] \<and>
           fuse answers = Inr (hd (filter (\<lambda>a. msync_normalize a = w) (non_empty answers)))"
proof -
  let ?ne = "non_empty answers"
  let ?ns = "map msync_normalize ?ne"
  from assms have ns: "?ns \<noteq> []" by simp
  from most_common1_Counter[OF ns] obtain w where
    mc: "most_common1 (Counter ?ns) = [(w, count_list ?ns w)]" and w: "w \<in> set ?ns"
    by blast
  have bn: "best_norm answers = Some w" using mc by (simp add: best_norm_def)
  from w have cand: "filter (\<lambda>a. msync_normalize a = w) ?ne \<noteq> []"
    by (auto simp: filter_empty_conv)
  have "fuse answers = Inr (hd (filter (\<lambda>a. msync_normalize a = w) ?ne))"
    using assms mc cand by (simp add: fuse_def Let_def)
  with bn cand show ?thesis by blast
qed

lemma find_filter_hd:
  "filter P xs \<noteq> [] \<Longrightarrow> find P xs = Some (hd (filter P xs))"
  by (induction xs) auto

lemma usable_iff: "(a \<noteq> [] \<and> strip a \<noteq> []) = (strip a \<noteq> [])"
  by (auto simp: strip_def)

lemma candidates_of_answers:
  "filter (\<lambda>a. msync_normalize a = w) (non_empty answers) =
   map strip (filter (\<lambda>a. strip a \<noteq> [] \<and> msync_normalize a = w) answers)"
  by (induction answers) (auto simp: non_empty_def msync_normalize_strip usable_iff)





text \<open>
  C3, as the code has it. When some answer is usable (not blank), \<open>chat\<close> returns the
  first answer, in the order of the model list, that is usable and whose normalized form is
  the winning one, with its leading and trailing whitespace stripped; case and inner
  spacing are as the model gave them.
\<close>

theorem fuse_first_original_stripped:
  "filter (\<lambda>a. strip a \<noteq> []) answers \<noteq> [] \<Longrightarrow>
   \<exists>w a. best_norm answers = Some w \<and>
     find (\<lambda>a. strip a \<noteq> [] \<and> msync_normalize a = w) answers = Some a \<and>
     fuse answers = Inr (strip a)"
proof -
  assume "filter (\<lambda>a. strip a \<noteq> []) answers \<noteq> []"
  then have ne: "non_empty answers \<noteq> []" by (simp add: non_empty_def usable_iff)
  from fuse_candidates[OF ne] obtain w where w: "best_norm answers = Some w"
    "filter (\<lambda>a. msync_normalize a = w) (non_empty answers) \<noteq> []"
    "fuse answers = Inr (hd (filter (\<lambda>a. msync_normalize a = w) (non_empty answers)))"
    by blast
  let ?P = "\<lambda>a. strip a \<noteq> [] \<and> msync_normalize a = w"
  from w(2) have c: "filter ?P answers \<noteq> []" by (simp add: candidates_of_answers)
  then have "find ?P answers = Some (hd (filter ?P answers))" by (rule find_filter_hd)
  moreover have "fuse answers = Inr (strip (hd (filter ?P answers)))"
    using w(3) c by (simp add: candidates_of_answers hd_map)
  ultimately show ?thesis using w(1) by blast
qed

text \<open>
  Three models answer Paris., paris and Paris: the forms are paris. once and paris twice,
  and the answer returned is the second one.
\<close>

theorem fuse_first_original_stripped_witness:
  "best_norm [''Paris.'', ''paris'', ''Paris''] = Some ''paris'' \<and>
   fuse [''Paris.'', ''paris'', ''Paris''] = Inr ''paris''"
proof -
  have s: "strip ''Paris.'' = ''Paris.''" "strip ''paris'' = ''paris''" by code_simp+
  have n: "msync_normalize ''Paris.'' = ''paris.''" "msync_normalize ''paris'' = ''paris''"
    by code_simp+
  have b: "best_norm [''Paris.'', ''paris'', ''Paris''] = Some ''paris''" by code_simp
  have "filter (\<lambda>a. strip a \<noteq> []) [''Paris.'', ''paris'', ''Paris''] \<noteq> []"
    by (simp add: s)
  from fuse_first_original_stripped[OF this] b obtain a where
    a: "find (\<lambda>a. strip a \<noteq> [] \<and> msync_normalize a = ''paris'')
          [''Paris.'', ''paris'', ''Paris''] = Some a"
    and f: "fuse [''Paris.'', ''paris'', ''Paris''] = Inr (strip a)"
    by auto
  from a have "a = ''paris''" by (simp add: s n)
  with f have "fuse [''Paris.'', ''paris'', ''Paris''] = Inr ''paris''" by (simp add: s)
  with b show ?thesis by simp
qed

text \<open>
  C3, as stated, fails on an answer with surrounding whitespace: the string returned is
  not the answer the model gave.
\<close>

theorem fuse_original_counterexample:
  "fuse ['' Paris''] = Inr ''Paris'' \<and> ''Paris'' \<noteq> '' Paris''"
  by code_simp

subsection \<open>Embedding a batch\<close>

lemma length_pipeline_normalize: "length (pipeline_normalize e v) = length v"
  by (simp add: pipeline_normalize_def Let_def)

lemma length_embed_loop: "length (embed_loop e i ts) = length ts"
  by (induction ts arbitrary: i) auto

text \<open>
  The array built from vectors of one length: the converted vectors, that many columns.
\<close>

lemma np_array_Inr:
  "np_array e vs = Inr arr \<Longrightarrow>
   rows arr = map (map (to_float32 e)) vs \<and> (\<forall>v \<in> set vs. length v = ncols arr)"
proof -
  assume a: "np_array e vs = Inr arr"
  show ?thesis
  proof (cases "\<forall>v \<in> set vs. length v = length (hd vs)")
    case True
    then have "np_array e vs =
        Inr \<lparr>ncols = (case vs of [] \<Rightarrow> 0 | v # va \<Rightarrow> length v),
              rows = map (map (to_float32 e)) vs\<rparr>"
      unfolding np_array_def by (rule if_P)
    with a have r: "rows arr = map (map (to_float32 e)) vs"
      and c: "ncols arr = (case vs of [] \<Rightarrow> 0 | v # va \<Rightarrow> length v)" by auto
    have "\<forall>v \<in> set vs. length v = ncols arr"
    proof (cases vs)
      case Nil
      then show ?thesis by simp
    next
      case (Cons x xs)
      with c have "ncols arr = length (hd vs)" by simp
      with True show ?thesis by metis
    qed
    with r show ?thesis by blast
  next
    case False
    then have "np_array e vs = Inl ValueError" unfolding np_array_def by (rule if_not_P)
    with a show ?thesis by simp
  qed
qed

lemma np_array_Inl: "np_array e vs = Inl err \<Longrightarrow> err = ValueError"
  unfolding np_array_def
  by (cases "\<forall>v \<in> set vs. length v = length (hd vs)") simp_all

lemma np_array_single:
  "np_array e [v] = Inr \<lparr>ncols = length v, rows = [map (to_float32 e) v]\<rparr>"
  by (simp add: np_array_def)

lemma np_vstack_Inr:
  "np_vstack a b = Inr m \<Longrightarrow> rows m = rows a @ rows b \<and> ncols a = ncols b"
  unfolding np_vstack_def by (cases "ncols a = ncols b") auto

lemma np_vstack_Inl: "np_vstack a b = Inl err \<Longrightarrow> err = ValueError"
  unfolding np_vstack_def by (cases "ncols a = ncols b") simp_all

lemma embed_texts_Inr:
  assumes "embed_texts e ts = Inr m"
  shows "rows m = map (\<lambda>v. pipeline_normalize e (map (to_float32 e) v)) (embed_loop e 0 ts)"
    and "length (rows m) = length ts" and "ts \<noteq> []"
    and "\<forall>v \<in> set (embed_loop e 0 ts). length v = ncols m"
    and "\<forall>r \<in> set (rows m). length r = ncols m"
proof -
  from assms obtain arr where arr: "np_array e (embed_loop e 0 ts) = Inr arr"
    by (cases "np_array e (embed_loop e 0 ts)") (simp_all add: embed_texts_def)
  from np_array_Inr[OF arr] have r: "rows arr = map (map (to_float32 e)) (embed_loop e 0 ts)"
    and w: "\<forall>v \<in> set (embed_loop e 0 ts). length v = ncols arr" by blast+
  from assms arr have ne: "rows arr \<noteq> []"
    and m: "m = arr\<lparr>rows := map (pipeline_normalize e) (rows arr)\<rparr>"
    by (cases "rows arr = []"; simp add: embed_texts_def)+
  from m r show rm: "rows m =
      map (\<lambda>v. pipeline_normalize e (map (to_float32 e) v)) (embed_loop e 0 ts)"
    by simp
  then show "length (rows m) = length ts" by (simp add: length_embed_loop)
  from ne r show "ts \<noteq> []" by auto
  from w m show c: "\<forall>v \<in> set (embed_loop e 0 ts). length v = ncols m" by simp
  show "\<forall>r \<in> set (rows m). length r = ncols m"
  proof
    fix x assume "x \<in> set (rows m)"
    then obtain v where "v \<in> set (embed_loop e 0 ts)"
      "x = pipeline_normalize e (map (to_float32 e) v)" unfolding rm by auto
    with c show "length x = ncols m" by (simp add: length_pipeline_normalize)
  qed
qed

lemma embed_texts_Inl: "embed_texts e ts = Inl err \<Longrightarrow> err = ValueError \<or> err = AxisError"
proof -
  assume a: "embed_texts e ts = Inl err"
  show ?thesis
  proof (cases "np_array e (embed_loop e 0 ts)")
    case (Inl x)
    with np_array_Inl[OF Inl] a show ?thesis by (simp add: embed_texts_def)
  next
    case (Inr arr)
    with a show ?thesis by (cases "rows arr = []") (simp_all add: embed_texts_def)
  qed
qed

lemma length_fallback_vector: "length (fallback_vector e t) = 384"
  by (simp only: fallback_vector_def length_map length_upt diff_zero)

lemma embed_one_cases:
  "embed_one e i t = (if fell_back e i t then fallback_vector e t
                      else (case ollama_embed e i t of Inr v \<Rightarrow> v | Inl err \<Rightarrow> []))"
  by (simp add: embed_one_def fell_back_def split: sum.splits)

lemma nth_embed_loop:
  "j < length ts \<Longrightarrow> embed_loop e i ts ! j = embed_one e (i + j) (ts ! j)"
proof (induction ts arbitrary: i j)
  case Nil
  then show ?case by simp
next
  case (Cons t ts)
  then show ?case by (cases j) auto
qed

lemma embed_texts_fallback_width:
  assumes "embed_texts e ts = Inr m" and "i < length ts" and "fell_back e i (ts ! i)"
  shows "ncols m = 384" and "\<forall>r \<in> set (rows m). length r = 384"
proof -
  note f = embed_texts_Inr[OF assms(1)]
  have "embed_loop e 0 ts ! i = fallback_vector e (ts ! i)"
    using assms(2,3) by (simp add: nth_embed_loop embed_one_cases)
  moreover have "embed_loop e 0 ts ! i \<in> set (embed_loop e 0 ts)"
    using assms(2) by (simp add: length_embed_loop)
  ultimately have "length (fallback_vector e (ts ! i)) = ncols m" using f(4) by metis
  then show c: "ncols m = 384" by (simp only: length_fallback_vector)
  with f(5) show "\<forall>r \<in> set (rows m). length r = 384" by simp
qed

lemma embed_texts_single:
  "embed_texts e [t] =
     Inr \<lparr>ncols = length (embed_one e 0 t),
          rows = [pipeline_normalize e (map (to_float32 e) (embed_one e 0 t))]\<rparr>"
  by (simp add: embed_texts_def np_array_single)


subsection \<open>Lines of the text artifact\<close>

lemma universal_newlines_id: "CR \<notin> set s \<Longrightarrow> universal_newlines s = s"
  by (induction s rule: universal_newlines.induct) auto

lemma universal_newlines_no_CR: "CR \<notin> set (universal_newlines s)"
  by (induction s rule: universal_newlines.induct) (auto simp: LF_def CR_def)

lemma lines_loop_append:
  "LF \<notin> set l \<Longrightarrow> lines_loop cur (l @ LF # rest) = (cur @ l @ [LF]) # lines_loop [] rest"
  by (induction l arbitrary: cur) auto

lemma lines_loop_store_content:
  "\<forall>d \<in> set ds. LF \<notin> set d \<Longrightarrow>
   lines_loop [] (store_content ds) = map (\<lambda>d. d @ [LF]) ds"
proof (induction ds)
  case Nil
  then show ?case by (simp add: store_content_def)
next
  case (Cons d ds)
  then have "lines_loop [] (d @ LF # store_content ds) = ([] @ d @ [LF]) # lines_loop [] (store_content ds)"
    by (intro lines_loop_append) simp
  with Cons show ?case by (simp add: store_content_def)
qed

lemma rstrip_nl_id: "LF \<notin> set d \<Longrightarrow> rstrip_nl d = d"
proof -
  assume a: "LF \<notin> set d"
  have "dropWhile (\<lambda>c. c = LF) (rev d) = rev d"
  proof (cases "d = []")
    case True
    then show ?thesis by simp
  next
    case False
    then have "hd (rev d) \<in> set d" by (simp add: hd_rev)
    with a have "hd (rev d) \<noteq> LF" by auto
    then show ?thesis by (simp add: dropWhile_eq_self_iff)
  qed
  then show ?thesis by (simp add: rstrip_nl_def)
qed

lemma rstrip_nl_line: "LF \<notin> set d \<Longrightarrow> rstrip_nl (d @ [LF]) = d"
  using rstrip_nl_id[of d] by (simp add: rstrip_nl_def)

lemma readlines_store_content:
  assumes "\<forall>d \<in> set ds. one_line d"
  shows "readlines (store_content ds) = map (\<lambda>d. d @ [LF]) ds"
    and "map rstrip_nl (readlines (store_content ds)) = ds"
proof -
  have "CR \<notin> set (store_content ds)"
    using assms by (auto simp: store_content_def one_line_def LF_def CR_def)
  then show r: "readlines (store_content ds) = map (\<lambda>d. d @ [LF]) ds"
    using assms by (simp add: readlines_def universal_newlines_id lines_loop_store_content one_line_def)
  show "map rstrip_nl (readlines (store_content ds)) = ds"
    unfolding r using assms by (simp add: one_line_def rstrip_nl_line map_idI)
qed

lemma lines_loop_one_line:
  "LF \<notin> set cur \<Longrightarrow> \<forall>l \<in> set (lines_loop cur s). LF \<notin> set (rstrip_nl l)"
proof (induction s arbitrary: cur)
  case Nil
  then have "rstrip_nl cur = cur" by (rule rstrip_nl_id)
  with Nil show ?case by simp
next
  case (Cons c s)
  show ?case
  proof (cases "c = LF")
    case True
    have "\<forall>l \<in> set (lines_loop [] s). LF \<notin> set (rstrip_nl l)" by (rule Cons.IH) simp
    moreover have "rstrip_nl (cur @ [c]) = cur"
      using True Cons.prems by (simp add: rstrip_nl_line)
    ultimately show ?thesis using True Cons.prems by simp
  next
    case False
    with Cons.prems have "\<forall>l \<in> set (lines_loop (cur @ [c]) s). LF \<notin> set (rstrip_nl l)"
      by (intro Cons.IH) simp
    with False show ?thesis by simp
  qed
qed

lemma set_rstrip_nl: "set (rstrip_nl l) \<subseteq> set l"
  by (auto simp: rstrip_nl_def dest: set_dropWhileD)

lemma set_lines_loop: "l \<in> set (lines_loop cur s) \<Longrightarrow> set l \<subseteq> set cur \<union> set s"
proof (induction s arbitrary: cur)
  case Nil
  then show ?case by (auto split: if_splits)
next
  case (Cons c s)
  show ?case
  proof (cases "c = LF")
    case True
    with Cons.prems have "l = cur @ [c] \<or> l \<in> set (lines_loop [] s)" by simp
    then show ?thesis using Cons.IH[of "[]"] by auto
  next
    case False
    with Cons.prems have "l \<in> set (lines_loop (cur @ [c]) s)" by simp
    from Cons.IH[OF this] show ?thesis by auto
  qed
qed

lemma loaded_lines_one_line:
  "l \<in> set (map rstrip_nl (readlines content)) \<Longrightarrow> one_line l"
proof -
  assume "l \<in> set (map rstrip_nl (readlines content))"
  then obtain l0 where l0: "l0 \<in> set (lines_loop [] (universal_newlines content))"
    "l = rstrip_nl l0" by (auto simp: readlines_def)
  have "\<forall>l \<in> set (lines_loop [] (universal_newlines content)). LF \<notin> set (rstrip_nl l)"
    by (rule lines_loop_one_line) simp
  with l0 have "LF \<notin> set l" by blast
  moreover have "CR \<notin> set l"
  proof
    assume "CR \<in> set l"
    with l0(2) set_rstrip_nl[of l0] have "CR \<in> set l0" by blast
    with set_lines_loop[OF l0(1)] have "CR \<in> set (universal_newlines content)" by auto
    with universal_newlines_no_CR[of content] show False by simp
  qed
  ultimately show ?thesis by (simp add: one_line_def)
qed


lemma set_join: "c \<in> set (join ws) \<Longrightarrow> c = CHR '' '' \<or> (\<exists>w \<in> set ws. c \<in> set w)"
  by (induction ws rule: join.induct) auto

lemma isspace_LF_CR: "isspace LF" "isspace CR"
  by (simp_all add: isspace_def LF_def CR_def)

lemma chunk_one_line: "c \<in> set (chunk t 500) \<Longrightarrow> one_line c"
proof -
  assume c: "c \<in> set (chunk t 500)"
  obtain gs where gs: "chunk t 500 = map join gs" "concat gs = split t"
    using chunk_blocks by blast
  from c gs(1) obtain g where g: "g \<in> set gs" "c = join g" by auto
  have ok: "\<forall>w \<in> set g. word_ok w"
  proof
    fix w assume "w \<in> set g"
    with g(1) have "w \<in> set (concat gs)" by auto
    with gs(2) show "word_ok w" by (simp add: split_words)
  qed
  have "x \<noteq> LF \<and> x \<noteq> CR" if "x \<in> set c" for x
  proof -
    from that g(2) set_join[of x g] consider "x = CHR '' ''" | w where "w \<in> set g" "x \<in> set w"
      by auto
    then show ?thesis
    proof cases
      case 1
      then show ?thesis by (simp add: LF_def CR_def)
    next
      case 2
      with ok have "\<not> isspace x" by (auto simp: word_ok_def)
      with isspace_LF_CR show ?thesis by auto
    qed
  qed
  then show ?thesis by (auto simp: one_line_def)
qed

subsection \<open>Adding documents\<close>

lemma persist_cases:
  "persist io ds m d = (r, d') \<Longrightarrow>
   (io = NoFault \<and> r = Inr () \<and>
      d' = d\<lparr>store_txt := Some (store_content ds), emb_npy := Some (Npy m)\<rparr>) \<or>
   (io \<noteq> NoFault \<and> r = Inl OSError \<and> (io = StoreOpenFails \<longrightarrow> d' = d))"
  by (cases io) (auto simp: persist_def)

text \<open>\<open>_add_documents\<close> on a batch that is not empty.\<close>

lemma add_documents_unfold:
  "chunks \<noteq> [] \<Longrightarrow>
   add_documents e io chunks (p, d) =
     (case embed_texts e chunks of
        Inl err \<Rightarrow> (Inl err, p, d)
      | Inr new_vecs \<Rightarrow>
          (case (case embeddings p of None \<Rightarrow> Inr new_vecs | Some m \<Rightarrow> np_vstack m new_vecs) of
             Inl err \<Rightarrow> (Inl err, p, d)
           | Inr m' \<Rightarrow>
               (fst (persist io (docs p @ chunks) m' d),
                p\<lparr>docs := docs p @ chunks, embeddings := Some m'\<rparr>,
                snd (persist io (docs p @ chunks) m' d))))"
  by (simp add: add_documents_def Let_def split: sum.splits)

lemma add_documents_ok:
  assumes "add_documents e io chunks (p, d) = (Inr (), p', d')" and "chunks \<noteq> []"
  shows "\<exists>new m'. embed_texts e chunks = Inr new \<and>
           rows m' = (case embeddings p of None \<Rightarrow> rows new | Some m \<Rightarrow> rows m @ rows new) \<and>
           p' = p\<lparr>docs := docs p @ chunks, embeddings := Some m'\<rparr> \<and>
           d' = d\<lparr>store_txt := Some (store_content (docs p @ chunks)),
                  emb_npy := Some (Npy m')\<rparr>"
proof -
  from assms obtain new where new: "embed_texts e chunks = Inr new"
    by (cases "embed_texts e chunks") (simp_all add: add_documents_unfold)
  let ?st = "case embeddings p of None \<Rightarrow> Inr new | Some m \<Rightarrow> np_vstack m new"
  from assms new obtain m' where m': "?st = Inr m'"
    by (cases ?st) (simp_all add: add_documents_unfold)
  have m'_eq: "rows m' = (case embeddings p of None \<Rightarrow> rows new | Some m \<Rightarrow> rows m @ rows new)"
  proof (cases "embeddings p")
    case None
    with m' show ?thesis by simp
  next
    case (Some m)
    with m' have "np_vstack m new = Inr m'" by simp
    from np_vstack_Inr[OF this] Some show ?thesis by simp
  qed
  obtain r dd where pr: "persist io (docs p @ chunks) m' d = (r, dd)"
    by (cases "persist io (docs p @ chunks) m' d")
  from assms new m' pr have res: "r = Inr ()" "p' = p\<lparr>docs := docs p @ chunks, embeddings := Some m'\<rparr>"
    "d' = dd" by (simp_all add: add_documents_unfold)
  from persist_cases[OF pr] res(1)
  have "dd = d\<lparr>store_txt := Some (store_content (docs p @ chunks)), emb_npy := Some (Npy m')\<rparr>"
    by auto
  with new m'_eq res show ?thesis by blast
qed

lemma add_documents_failed:
  assumes "add_documents e io chunks (p, d) = (Inl err, p', d')"
  shows "(err \<noteq> OSError \<longrightarrow> p' = p \<and> d' = d) \<and> (io = StoreOpenFails \<longrightarrow> d' = d)"
proof (cases "chunks = []")
  case True
  with assms show ?thesis by (simp add: add_documents_def)
next
  case False
  note u = add_documents_unfold[OF False, of e io p d]
  show ?thesis
  proof (cases "embed_texts e chunks")
    case (Inl x)
    with assms u show ?thesis by simp
  next
    case (Inr new)
    let ?st = "case embeddings p of None \<Rightarrow> Inr new | Some m \<Rightarrow> np_vstack m new"
    show ?thesis
    proof (cases ?st)
      case (Inl x)
      with assms u Inr show ?thesis by simp
    next
      case st: (Inr m')
      obtain r dd where pr: "persist io (docs p @ chunks) m' d = (r, dd)"
        by (cases "persist io (docs p @ chunks) m' d")
      from assms u Inr st pr have "r = Inl err" "d' = dd" by simp_all
      with persist_cases[OF pr] show ?thesis by auto
    qed
  qed
qed


subsection \<open>Sample runs\<close>

lemma chunk_samples:
  "chunk ''hello world'' 500 = [''hello world'']" "chunk ''a'' 500 = [''a'']"
  "chunk ''b'' 500 = [''b'']" "chunk ''c'' 500 = [''c'']"
  by code_simp+

lemma embed_one_backend_down: "embed_one backend_down i t = fallback_vector backend_down t"
  by (simp add: embed_one_def backend_down_def sample_env_def)

lemma embed_one_backend_2d: "embed_one backend_2d i t = [Finite 3, Finite 4]"
  by (simp add: embed_one_def backend_2d_def sample_env_def)

lemma normalize_sample:
  "pipeline_normalize backend_down (map (to_float32 backend_down) v) = v"
  "pipeline_normalize backend_2d (map (to_float32 backend_2d) v) = v"
  by (simp_all add: pipeline_normalize_def backend_down_def backend_2d_def sample_env_def)

lemma embed_texts_backend_down:
  "embed_texts backend_down [t] =
     Inr \<lparr>ncols = 384, rows = [fallback_vector backend_down t]\<rparr>"
  by (simp only: embed_texts_single normalize_sample embed_one_backend_down
      length_fallback_vector)

lemma embed_texts_backend_2d:
  "embed_texts backend_2d [t] = Inr \<lparr>ncols = 2, rows = [ [Finite 3, Finite 4]]\<rparr>"
  by (simp only: embed_texts_single normalize_sample embed_one_backend_2d) simp

lemma ingest_2d_eq:
  "ingest_2d =
     (Inr (),
      \<lparr>docs = [''a''], embeddings = Some \<lparr>ncols = 2, rows = [ [Finite 3, Finite 4]]\<rparr>\<rparr>,
      \<lparr>store_txt = Some (store_content [''a'']),
       emb_npy = Some (Npy \<lparr>ncols = 2, rows = [ [Finite 3, Finite 4]]\<rparr>)\<rparr>)"
  by (simp add: ingest_2d_def save_and_ingest_def chunk_samples add_documents_unfold
      embed_texts_backend_2d empty_pipeline_def no_disk_def persist_def)

lemma first_ingest_eq:
  "first_ingest =
     (Inr (),
      \<lparr>docs = [''hello world''],
       embeddings = Some \<lparr>ncols = 384, rows = [fallback_vector backend_down ''hello world'']\<rparr>\<rparr>,
      \<lparr>store_txt = Some (store_content [''hello world'']),
       emb_npy =
         Some (Npy \<lparr>ncols = 384, rows = [fallback_vector backend_down ''hello world'']\<rparr>)\<rparr>)"
  by (simp add: first_ingest_def save_and_ingest_def chunk_samples add_documents_unfold
      embed_texts_backend_down empty_pipeline_def no_disk_def persist_def
     )

lemma ingest_emb_open_fails_eq:
  "ingest_emb_open_fails =
     (Inl OSError,
      \<lparr>docs = [''a''], embeddings = Some \<lparr>ncols = 2, rows = [ [Finite 3, Finite 4]]\<rparr>\<rparr>,
      store_only)"
  by (simp add: ingest_emb_open_fails_def save_and_ingest_def chunk_samples add_documents_unfold
      embed_texts_backend_2d empty_pipeline_def no_disk_def persist_def
      store_only_def store_content_def)

lemma ingest_after_store_only_eq:
  "ingest_after_store_only =
     (Inr (),
      \<lparr>docs = [''a'', ''b''],
       embeddings = Some \<lparr>ncols = 2, rows = [ [Finite 3, Finite 4]]\<rparr>\<rparr>,
      \<lparr>store_txt = Some (store_content [''a'', ''b'']),
       emb_npy = Some (Npy \<lparr>ncols = 2, rows = [ [Finite 3, Finite 4]]\<rparr>)\<rparr>)"
  by (simp add: ingest_after_store_only_def save_and_ingest_def chunk_samples
      add_documents_unfold embed_texts_backend_2d persist_def store_only_def)

lemma new_pipeline_store_only:
  "new_pipeline store_only = Inr \<lparr>docs = [''a''], embeddings = None\<rparr>"
  by (simp add: new_pipeline_def load_def store_only_def readlines_def rstrip_nl_def LF_def CR_def)

lemma one_line_samples: "one_line ''a''" "one_line ''b''" "one_line ''hello world''"
  by (simp_all add: one_line_def LF_def CR_def)


subsection \<open>Alignment\<close>

text \<open>
  C1, as the code has it. When the chunk list and the matrix in memory are aligned before
  an ingest call (and no stored chunk holds a line terminator), then after the call has
  completed without error they are aligned again; if the upload gave at least one chunk,
  both artifacts have been rewritten from them, with one line and one row per chunk; and
  if the embedding of some chunk of the batch fell back, every row of the batch has 384
  entries. An upload without words changes nothing.
\<close>

theorem ingest_keeps_alignment:
  "aligned p \<Longrightarrow> \<forall>c \<in> set (docs p). one_line c \<Longrightarrow>
   save_and_ingest e io t (p, d) = (Inr (), p', d') \<Longrightarrow>
   aligned p' \<and> (\<forall>c \<in> set (docs p'). one_line c) \<and>
   (chunk t 500 = [] \<longrightarrow> p' = p \<and> d' = d) \<and>
   (chunk t 500 \<noteq> [] \<longrightarrow>
      (\<exists>m. embeddings p' = Some m \<and> length (rows m) = length (docs p') \<and>
           docs p' = docs p @ chunk t 500 \<and>
           store_txt d' = Some (store_content (docs p')) \<and> emb_npy d' = Some (Npy m) \<and>
           lines_on_disk d' = length (docs p') \<and>
           rows_on_disk d' = Some (length (rows m)) \<and>
           ((\<exists>i < length (chunk t 500). fell_back e i (chunk t 500 ! i)) \<longrightarrow>
              (\<forall>r \<in> set (drop (length (docs p)) (rows m)). length r = 384))))"
proof -
  assume al: "aligned p" and ol: "\<forall>c \<in> set (docs p). one_line c"
    and run: "save_and_ingest e io t (p, d) = (Inr (), p', d')"
  let ?cs = "chunk t 500"
  from run have ad: "add_documents e io ?cs (p, d) = (Inr (), p', d')"
    by (simp add: save_and_ingest_def)
  show ?thesis
  proof (cases "?cs = []")
    case True
    with ad have "p' = p" "d' = d" by (simp_all add: add_documents_def)
    with True al ol show ?thesis by simp
  next
    case False
    from add_documents_ok[OF ad False] obtain new m' where
      new: "embed_texts e ?cs = Inr new"
      and m': "rows m' = (case embeddings p of None \<Rightarrow> rows new | Some m \<Rightarrow> rows m @ rows new)"
      and p': "p' = p\<lparr>docs := docs p @ ?cs, embeddings := Some m'\<rparr>"
      and d': "d' = d\<lparr>store_txt := Some (store_content (docs p @ ?cs)),
                      emb_npy := Some (Npy m')\<rparr>"
      by blast
    note n = embed_texts_Inr[OF new]
    have len: "length (rows m') = length (docs p @ ?cs)"
      and dr: "drop (length (docs p)) (rows m') = rows new"
      using al m' n(2) by (auto simp: aligned_def split: option.splits)
    have ol': "\<forall>c \<in> set (docs p @ ?cs). one_line c"
      using ol chunk_one_line by auto
    have lines: "lines_on_disk d' = length (docs p @ ?cs)"
      using d' readlines_store_content(1)[OF ol'] by (simp add: lines_on_disk_def)
    have rows: "rows_on_disk d' = Some (length (rows m'))"
      using d' by (simp add: rows_on_disk_def)
    have fb: "\<forall>r \<in> set (rows new). length r = 384"
      if "\<exists>i < length ?cs. fell_back e i (?cs ! i)"
      using that embed_texts_fallback_width(2)[OF new] by blast
    have "aligned p'" using p' len by (simp add: aligned_def)
    moreover have "\<forall>c \<in> set (docs p'). one_line c" using p' ol' by simp
    moreover have "embeddings p' = Some m' \<and> length (rows m') = length (docs p') \<and>
           docs p' = docs p @ ?cs \<and>
           store_txt d' = Some (store_content (docs p')) \<and> emb_npy d' = Some (Npy m') \<and>
           lines_on_disk d' = length (docs p') \<and>
           rows_on_disk d' = Some (length (rows m')) \<and>
           ((\<exists>i < length ?cs. fell_back e i (?cs ! i)) \<longrightarrow>
              (\<forall>r \<in> set (drop (length (docs p)) (rows m')). length r = 384))"
      using p' d' len lines rows fb dr by simp
    ultimately show ?thesis using False by blast
  qed
qed

text \<open>
  The first upload into an empty directory with the backend down: one chunk, one fallback
  row of 384 entries, one line and one row on disk. An empty upload: nothing changes.
\<close>

theorem ingest_keeps_alignment_witness:
  "aligned empty_pipeline \<and> fst first_ingest = Inr () \<and>
   aligned (fst (snd first_ingest)) \<and>
   docs (fst (snd first_ingest)) = [''hello world''] \<and>
   map_option (\<lambda>m. map length (rows m)) (embeddings (fst (snd first_ingest))) = Some [384] \<and>
   lines_on_disk (snd (snd first_ingest)) = 1 \<and>
   rows_on_disk (snd (snd first_ingest)) = Some 1 \<and>
   save_and_ingest backend_down NoFault [] (empty_pipeline, no_disk) =
     (Inr (), empty_pipeline, no_disk)"
proof -
  have al: "aligned empty_pipeline" by (simp add: aligned_def empty_pipeline_def)
  have ol: "\<forall>c \<in> set (docs empty_pipeline). one_line c" by (simp add: empty_pipeline_def)
  have run: "save_and_ingest backend_down NoFault ''hello world'' (empty_pipeline, no_disk) =
             (Inr (), fst (snd first_ingest), snd (snd first_ingest))"
    unfolding first_ingest_def[symmetric] by (simp add: first_ingest_eq)
  have fb: "\<exists>i < length (chunk ''hello world'' 500).
              fell_back backend_down i (chunk ''hello world'' 500 ! i)"
    by (simp add: chunk_samples fell_back_def backend_down_def sample_env_def)
  from ingest_keeps_alignment[OF al ol run] fb obtain m where
    "aligned (fst (snd first_ingest))" "embeddings (fst (snd first_ingest)) = Some m"
    "length (rows m) = length (docs (fst (snd first_ingest)))"
    "docs (fst (snd first_ingest)) = docs empty_pipeline @ chunk ''hello world'' 500"
    "lines_on_disk (snd (snd first_ingest)) = length (docs (fst (snd first_ingest)))"
    "rows_on_disk (snd (snd first_ingest)) = Some (length (rows m))"
    "\<forall>r \<in> set (drop (length (docs empty_pipeline)) (rows m)). length r = 384"
    by (auto simp: chunk_samples)
  then have first: "aligned (fst (snd first_ingest)) \<and>
     docs (fst (snd first_ingest)) = [''hello world''] \<and>
     map_option (\<lambda>m. map length (rows m)) (embeddings (fst (snd first_ingest))) = Some [384] \<and>
     lines_on_disk (snd (snd first_ingest)) = 1 \<and>
     rows_on_disk (snd (snd first_ingest)) = Some 1"
    by (auto simp: chunk_samples empty_pipeline_def first_ingest_eq length_Suc_conv)
  let ?r0 = "save_and_ingest backend_down NoFault [] (empty_pipeline, no_disk)"
  have c0: "chunk [] 500 = []" by (simp add: chunk_def split_def)
  have "fst ?r0 = Inr ()" by (simp add: save_and_ingest_def c0 add_documents_def)
  then have run0: "?r0 = (Inr (), fst (snd ?r0), snd (snd ?r0))" by (metis prod.collapse)
  from ingest_keeps_alignment[OF al ol run0] c0
  have "fst (snd ?r0) = empty_pipeline \<and> snd (snd ?r0) = no_disk" by blast
  with run0 have "?r0 = (Inr (), empty_pipeline, no_disk)" by simp
  moreover have "fst first_ingest = Inr ()" by (simp add: first_ingest_eq)
  ultimately show ?thesis using al first by blast
qed

text \<open>
  C1, as stated for every corpus state, fails on a pipeline built over a directory that
  holds the text artifact alone: the call completes, and leaves two chunks and one row,
  in memory and on disk.
\<close>

theorem ingest_alignment_counterexample:
  "new_pipeline store_only = Inr \<lparr>docs = [''a''], embeddings = None\<rparr> \<and>
   fst ingest_after_store_only = Inr () \<and>
   length (docs (fst (snd ingest_after_store_only))) = 2 \<and>
   map_option (\<lambda>m. length (rows m)) (embeddings (fst (snd ingest_after_store_only))) = Some 1 \<and>
   lines_on_disk (snd (snd ingest_after_store_only)) = 2 \<and>
   rows_on_disk (snd (snd ingest_after_store_only)) = Some 1"
proof -
  have "\<forall>c \<in> set [''a'', ''b'']. one_line c" by (simp add: one_line_samples)
  from readlines_store_content(1)[OF this]
  have "length (readlines (store_content [''a'', ''b''])) = 2" by simp
  then show ?thesis
    by (simp add: new_pipeline_store_only ingest_after_store_only_eq lines_on_disk_def
        rows_on_disk_def)
qed

subsection \<open>Failures during an ingest call\<close>

text \<open>
  C2, as the code has it. When an ingest call fails while embedding the chunks or stacking
  the new vectors, the corpus is as before the call, on disk and in memory; when it fails
  because the text artifact cannot be opened for writing, the disk is as before the call.
\<close>

theorem failed_ingest_leaves_disk:
  "save_and_ingest e io t (p, d) = (Inl err, p', d') \<Longrightarrow>
   (err \<noteq> OSError \<longrightarrow> p' = p \<and> d' = d) \<and> (io = StoreOpenFails \<longrightarrow> d' = d)"
  unfolding save_and_ingest_def by (rule add_documents_failed)


lemma vstack_two_docs_down:
  "np_vstack \<lparr>ncols = 2, rows = [ [Finite 1, Finite 0], [Finite 0, Finite 1]]\<rparr>
     \<lparr>ncols = 384, rows = [fallback_vector backend_down ''c'']\<rparr> = Inl ValueError"
  by (simp add: np_vstack_def)

lemma vstack_two_docs_2d:
  "np_vstack \<lparr>ncols = 2, rows = [ [Finite 1, Finite 0], [Finite 0, Finite 1]]\<rparr>
     \<lparr>ncols = 2, rows = [ [Finite 3, Finite 4]]\<rparr> =
   Inr \<lparr>ncols = 2, rows = [ [Finite 1, Finite 0], [Finite 0, Finite 1], [Finite 3, Finite 4]]\<rparr>"
  by (simp add: np_vstack_def)

text \<open>
  Over a corpus of two-dimensional vectors: with the backend down the fallback row does
  not fit and stacking fails; with \<open>store.txt\<close> not writable the persist step fails at once.
\<close>

theorem failed_ingest_leaves_disk_witness:
  "save_and_ingest backend_down NoFault ''c'' (two_docs, two_docs_disk) =
     (Inl ValueError, two_docs, two_docs_disk) \<and>
   fst (save_and_ingest backend_2d StoreOpenFails ''c'' (two_docs, two_docs_disk)) =
     Inl OSError \<and>
   snd (snd (save_and_ingest backend_2d StoreOpenFails ''c'' (two_docs, two_docs_disk))) =
     two_docs_disk"
proof -
  let ?r1 = "save_and_ingest backend_down NoFault ''c'' (two_docs, two_docs_disk)"
  let ?r2 = "save_and_ingest backend_2d StoreOpenFails ''c'' (two_docs, two_docs_disk)"
  have f1: "fst ?r1 = Inl ValueError"
    by (simp add: save_and_ingest_def chunk_samples add_documents_unfold embed_texts_backend_down two_docs_def vstack_two_docs_down)
  have f2: "fst ?r2 = Inl OSError"
    by (simp add: save_and_ingest_def chunk_samples add_documents_unfold embed_texts_backend_2d two_docs_def vstack_two_docs_2d persist_def)
  have e1: "?r1 = (Inl ValueError, fst (snd ?r1), snd (snd ?r1))"
    using f1 by (metis prod.collapse)
  have e2: "?r2 = (Inl OSError, fst (snd ?r2), snd (snd ?r2))"
    using f2 by (metis prod.collapse)
  from failed_ingest_leaves_disk[OF e1] have "fst (snd ?r1) = two_docs" "snd (snd ?r1) = two_docs_disk"
    by simp_all
  moreover from failed_ingest_leaves_disk[OF e2] have "snd (snd ?r2) = two_docs_disk"
    by simp
  ultimately show ?thesis using e1 f2 by simp
qed

text \<open>
  C2, as stated, fails when the matrix artifact cannot be written: the text artifact has
  been rewritten by then, and the directory is left with one line and no row.
\<close>

theorem failed_ingest_counterexample:
  "fst ingest_emb_open_fails = Inl OSError \<and>
   snd (snd ingest_emb_open_fails) = store_only \<and> store_only \<noteq> no_disk \<and>
   lines_on_disk store_only = 1 \<and> rows_on_disk store_only = Some 0"
  by (simp add: ingest_emb_open_fails_eq store_only_def no_disk_def lines_on_disk_def
      rows_on_disk_def readlines_def LF_def CR_def)

subsection \<open>Reloading\<close>

lemma add_documents_docs:
  "add_documents e io chunks (p, d) = (r, p', d') \<Longrightarrow>
   docs p' = docs p \<or> docs p' = docs p @ chunks"
proof (cases "chunks = []")
  case True
  assume "add_documents e io chunks (p, d) = (r, p', d')"
  with True show ?thesis by (simp add: add_documents_def)
next
  case False
  assume a: "add_documents e io chunks (p, d) = (r, p', d')"
  show ?thesis
    using a unfolding add_documents_unfold[OF False]
    by (auto split: sum.splits)
qed

lemma new_pipeline_one_line:
  "new_pipeline d = Inr p \<Longrightarrow> c \<in> set (docs p) \<Longrightarrow> one_line c"
proof -
  assume a: "new_pipeline d = Inr p" and c: "c \<in> set (docs p)"
  have "docs p = [] \<or> (\<exists>content. docs p = map rstrip_nl (readlines content))"
    using a by (auto simp: new_pipeline_def load_def Let_def split: option.splits npy_file.splits)
  with c show ?thesis using loaded_lines_one_line by auto
qed

lemma reachable_one_line:
  "reachable pd \<Longrightarrow> \<forall>c \<in> set (docs (fst pd)). one_line c"
proof (induction rule: reachable.induct)
  case (start d p)
  then show ?case using new_pipeline_one_line by auto
next
  case (ingest p d e io t r p' d')
  from ingest.hyps(2) have "docs p' = docs p \<or> docs p' = docs p @ chunk t 500"
    unfolding save_and_ingest_def by (rule add_documents_docs)
  with ingest.IH chunk_one_line show ?case by auto
qed

lemma load_persisted:
  assumes "\<forall>c \<in> set ds. one_line c"
  shows "new_pipeline (d\<lparr>store_txt := Some (store_content ds), emb_npy := Some (Npy m)\<rparr>) =
         Inr \<lparr>docs = ds, embeddings = Some m\<rparr>"
  using readlines_store_content(2)[OF assms] by (simp add: new_pipeline_def load_def)

text \<open>
  C7. For a corpus reached by building a pipeline and ingesting, the persist step followed
  by a fresh load gives back the same chunk list and the same matrix; in particular the
  pipeline built over the directory that a completed ingest call leaves is the pipeline
  that the call left in memory.
\<close>

theorem persist_load_roundtrip:
  "reachable (p, d) \<Longrightarrow>
   (embeddings p = Some m \<longrightarrow>
      fst (persist NoFault (docs p) m d) = Inr () \<and>
      new_pipeline (snd (persist NoFault (docs p) m d)) = Inr p) \<and>
   (save_and_ingest e io t (p, d) = (Inr (), p', d') \<and> chunk t 500 \<noteq> [] \<longrightarrow>
      new_pipeline d' = Inr p')"
proof -
  assume r: "reachable (p, d)"
  from reachable_one_line[OF r] have ol: "\<forall>c \<in> set (docs p). one_line c" by simp
  have a: "fst (persist NoFault (docs p) m d) = Inr () \<and>
           new_pipeline (snd (persist NoFault (docs p) m d)) = Inr p"
    if "embeddings p = Some m"
    using that load_persisted[OF ol, where d = d and m = m] by (simp add: persist_def)
  have b: "new_pipeline d' = Inr p'"
    if run: "save_and_ingest e io t (p, d) = (Inr (), p', d')" and ne: "chunk t 500 \<noteq> []"
  proof -
    have r': "reachable (p', d')" using r run by (rule reachable.ingest)
    from reachable_one_line[OF r'] have ol': "\<forall>c \<in> set (docs p'). one_line c" by simp
    from run have "add_documents e io (chunk t 500) (p, d) = (Inr (), p', d')"
      by (simp add: save_and_ingest_def)
    from add_documents_ok[OF this ne] obtain m' where
      "p' = p\<lparr>docs := docs p @ chunk t 500, embeddings := Some m'\<rparr>"
      "d' = d\<lparr>store_txt := Some (store_content (docs p @ chunk t 500)),
              emb_npy := Some (Npy m')\<rparr>"
      by blast
    then show ?thesis using load_persisted[OF ol', where d = d and m = m'] by simp
  qed
  from a b show ?thesis by blast
qed

text \<open>
  The empty pipeline over the empty directory, and the state after the first upload:
  reloading the directory gives the pipeline back, before and after persisting it again.
\<close>

theorem persist_load_roundtrip_witness:
  "reachable (empty_pipeline, no_disk) \<and> reachable (snd first_ingest) \<and>
   new_pipeline (snd (snd first_ingest)) = Inr (fst (snd first_ingest)) \<and>
   new_pipeline (snd (persist NoFault (docs (fst (snd first_ingest)))
       (the (embeddings (fst (snd first_ingest)))) (snd (snd first_ingest)))) =
     Inr (fst (snd first_ingest))"
proof -
  have r0: "reachable (empty_pipeline, no_disk)"
    by (rule reachable.start) (simp add: new_pipeline_def load_def no_disk_def empty_pipeline_def)
  have run: "save_and_ingest backend_down NoFault ''hello world'' (empty_pipeline, no_disk) =
             (Inr (), fst (snd first_ingest), snd (snd first_ingest))"
    unfolding first_ingest_def[symmetric] by (simp add: first_ingest_eq)
  have ne: "chunk ''hello world'' 500 \<noteq> []" by (simp add: chunk_samples)
  from persist_load_roundtrip[OF r0] run ne
  have l1: "new_pipeline (snd (snd first_ingest)) = Inr (fst (snd first_ingest))" by blast
  have r1: "reachable (fst (snd first_ingest), snd (snd first_ingest))"
    using r0 run by (rule reachable.ingest)
  have em: "embeddings (fst (snd first_ingest)) = Some (the (embeddings (fst (snd first_ingest))))"
    by (simp add: first_ingest_eq)
  from persist_load_roundtrip[OF r1] em
  have l2: "new_pipeline (snd (persist NoFault (docs (fst (snd first_ingest)))
       (the (embeddings (fst (snd first_ingest)))) (snd (snd first_ingest)))) =
     Inr (fst (snd first_ingest))" by blast
  from r0 r1 l1 l2 show ?thesis by simp
qed

subsection \<open>The fallback vector\<close>

lemma map_upt_eq_iff:
  "(map f [0..<n] = map g [0..<n]) = (\<forall>k < n. f k = g k)"
  by (simp only: map_eq_conv set_upt atLeastLessThan_iff) auto

text \<open>
  C8. The vector substituted for a text whose embedding call fell back is drawn from the
  generator seeded with the hash of the text in the running process, modulo \<open>10^8\<close>. Two
  calls in one process give the same vector; two processes give the same vector exactly
  when the samples drawn from their two seeds agree, and their seeds come from their own
  hashes of the text.
\<close>

theorem fallback_vector_follows_process_hash:
  "fell_back e1 i t \<Longrightarrow> fell_back e2 j t \<Longrightarrow>
   embed_one e1 i t = map (standard_normal e1 (nat (\<bar>py_hash e1 t\<bar> mod 10 ^ 8))) [0..<384] \<and>
   (embed_one e1 i t = embed_one e2 j t \<longleftrightarrow>
      (\<forall>k < 384. standard_normal e1 (nat (\<bar>py_hash e1 t\<bar> mod 10 ^ 8)) k =
                 standard_normal e2 (nat (\<bar>py_hash e2 t\<bar> mod 10 ^ 8)) k)) \<and>
   (py_hash e1 = py_hash e2 \<and> standard_normal e1 = standard_normal e2 \<longrightarrow>
      embed_one e1 i t = embed_one e2 j t)"
proof -
  assume f1: "fell_back e1 i t" and f2: "fell_back e2 j t"
  have v1: "embed_one e1 i t =
            map (standard_normal e1 (nat (\<bar>py_hash e1 t\<bar> mod 10 ^ 8))) [0..<384]"
    using f1 by (simp only: embed_one_cases fallback_vector_def fallback_seed_def if_True)
  have v2: "embed_one e2 j t =
            map (standard_normal e2 (nat (\<bar>py_hash e2 t\<bar> mod 10 ^ 8))) [0..<384]"
    using f2 by (simp only: embed_one_cases fallback_vector_def fallback_seed_def if_True)
  have eq: "embed_one e1 i t = embed_one e2 j t \<longleftrightarrow>
      (\<forall>k < 384. standard_normal e1 (nat (\<bar>py_hash e1 t\<bar> mod 10 ^ 8)) k =
                 standard_normal e2 (nat (\<bar>py_hash e2 t\<bar> mod 10 ^ 8)) k)"
    unfolding v1 v2 by (rule map_upt_eq_iff)
  have same: "embed_one e1 i t = embed_one e2 j t"
    if "py_hash e1 = py_hash e2 \<and> standard_normal e1 = standard_normal e2"
    unfolding v1 v2 using that by simp
  from v1 eq same show ?thesis by blast
qed

text \<open>Two calls with the backend down, in one process, on the same text.\<close>

theorem fallback_vector_follows_process_hash_witness:
  "fell_back backend_down 0 ''hello'' \<and> fell_back backend_down 1 ''hello'' \<and>
   embed_one backend_down 0 ''hello'' = embed_one backend_down 1 ''hello''"
proof -
  have f: "fell_back backend_down 0 ''hello''" "fell_back backend_down 1 ''hello''"
    by (simp_all add: fell_back_def backend_down_def sample_env_def)
  from fallback_vector_follows_process_hash[OF f] f show ?thesis by blast
qed


subsection \<open>Retrieval\<close>

text \<open>
  C5. On a corpus that is not empty, \<open>retrieve\<close> called while the event loop of the thread
  is running raises \<open>RuntimeError\<close>, for every query and every \<open>top_k\<close>: it returns no
  chunk. This is the state of the loop at the one call of \<open>retrieve\<close> in the repository,
  in \<open>async def chat\<close> of \<open>main.py\<close>.
\<close>

theorem retrieve_raises_in_running_loop:
  "embeddings p = Some m \<Longrightarrow> docs p \<noteq> [] \<Longrightarrow> event_loop e = LoopRunning \<Longrightarrow>
   retrieve e p query top_k = Inl RuntimeError"
  by (simp add: retrieve_def)

text \<open>
  One chunk has been ingested; the chat handler then asks for the four chunks nearest to
  a query.
\<close>

theorem retrieve_raises_in_running_loop_witness:
  "fst ingest_2d = Inr () \<and> docs (fst (snd ingest_2d)) = [''a''] \<and>
   embeddings (fst (snd ingest_2d)) = Some \<lparr>ncols = 2, rows = [ [Finite 3, Finite 4]]\<rparr> \<and>
   event_loop in_chat_handler = LoopRunning \<and>
   retrieve in_chat_handler (fst (snd ingest_2d)) ''a'' 4 = Inl RuntimeError"
proof -
  have em: "embeddings (fst (snd ingest_2d)) =
            Some \<lparr>ncols = 2, rows = [ [Finite 3, Finite 4]]\<rparr>"
    by (simp add: ingest_2d_eq)
  have ds: "docs (fst (snd ingest_2d)) = [''a'']" by (simp add: ingest_2d_eq)
  then have ne: "docs (fst (snd ingest_2d)) \<noteq> []" by simp
  have lp: "event_loop in_chat_handler = LoopRunning" by (simp add: in_chat_handler_def)
  have "fst ingest_2d = Inr ()" by (simp add: ingest_2d_eq)
  with retrieve_raises_in_running_loop[OF em ne lp] em ds lp show ?thesis by simp
qed


end
